theory Spec2Isabelle
  imports Main
begin

section \<open>Session guard and session manager (src/guards/auth.guard.ts)\<close>

text \<open>
  A \<^verbatim>\<open>Date\<close> holds a time value: a whole number of milliseconds since the epoch, at
  most 8.64e15 in absolute value, or \<^verbatim>\<open>NaN\<close>, and then the date is an Invalid Date.
  \<^verbatim>\<open>new Date(v)\<close> of a number outside that range is an Invalid Date, and so is the date
  built from a text that is no date. Every comparison with \<^verbatim>\<open>NaN\<close> is false.
  Every \<^verbatim>\<open>new Date()\<close> of one synchronous call reads the same clock value, passed to
  the model as the argument \<open>now\<close>, a whole number of milliseconds. A
  \<^verbatim>\<open>string | null\<close> is a \<^typ>\<open>string option\<close>; JavaScript treats \<^verbatim>\<open>null\<close>,
  \<^verbatim>\<open>undefined\<close> and the empty string as false in a condition.
\<close>

subsection \<open>Data\<close>

datatype Date = Time int | InvalidDate

definition newDate :: "int \<Rightarrow> Date" where
  "newDate v =
     (if - 8640000000000000 \<le> v \<and> v \<le> 8640000000000000 then Time v else InvalidDate)"

text \<open>\<^verbatim>\<open>new Date() > d\<close> and \<^verbatim>\<open>d > new Date()\<close>.\<close>

definition nowAfter :: "int \<Rightarrow> Date \<Rightarrow> bool" where
  "nowAfter now d = (case d of Time t \<Rightarrow> now > t | InvalidDate \<Rightarrow> False)"

definition nowBefore :: "int \<Rightarrow> Date \<Rightarrow> bool" where
  "nowBefore now d = (case d of Time t \<Rightarrow> t > now | InvalidDate \<Rightarrow> False)"

text \<open>
  \<^verbatim>\<open>AuthUser\<close>: the fields the guard and the service read, as the interface declares
  them. (\<^verbatim>\<open>lastLogin\<close>, \<^verbatim>\<open>profile\<close> and \<^verbatim>\<open>settings\<close> are carried along by the source
  and never inspected; \<^verbatim>\<open>id\<close> is named \<open>userId\<close> here.)
\<close>

record AuthUser =
  userId :: int
  email :: string
  roles :: "string list"
  permissions :: "string list"
  isActive :: bool

record AuthState =
  isAuthenticated :: bool
  user :: "AuthUser option"
  token :: "string option"
  refreshToken :: "string option"
  expiresAt :: "Date option"
  loginTime :: "Date option"
  lastActivity :: "Date option"

text \<open>
  The route data is untyped in the source (\<^verbatim>\<open>routeData?: any\<close>); the guard reads three
  properties of it, each of which may be missing, and the object itself may be missing.
\<close>

record RouteData =
  requiredRoles :: "string list option"
  requiredPermissions :: "string list option"
  requiresSecureAccess :: bool

text \<open>
  The calls made to the logging service, the notification service and the router. A log
  call is recorded with its message, a notification with its title, a navigation with its
  target.
\<close>

datatype SideEffect =
    LogInfo string
  | LogWarning string
  | LogError string
  | ShowError string
  | ShowWarning string
  | Navigate string

definition truthy :: "string option \<Rightarrow> bool" where
  "truthy s = (case s of None \<Rightarrow> False | Some t \<Rightarrow> t \<noteq> [])"

subsection \<open>AuthGuard\<close>

text \<open>
  The three checks on dates. For an Invalid Date each comparison is false: the token then
  counts as not expired, the session as not expired, the login as not recent.
\<close>

definition isTokenExpired :: "int \<Rightarrow> Date option \<Rightarrow> bool" where
  "isTokenExpired now expiry =
     (case expiry of
        None \<Rightarrow> True
      | Some InvalidDate \<Rightarrow> False
      | Some (Time e) \<Rightarrow> (let bufferTime = 5 * 60 * 1000 in now \<ge> e - bufferTime))"

definition isSessionExpired :: "int \<Rightarrow> Date option \<Rightarrow> bool" where
  "isSessionExpired now lastAct =
     (case lastAct of
        None \<Rightarrow> False
      | Some InvalidDate \<Rightarrow> False
      | Some (Time l) \<Rightarrow> (let maxInactiveTime = 30 * 60 * 1000 in now - l > maxInactiveTime))"

definition hasRequiredRoles :: "AuthUser \<Rightarrow> string list \<Rightarrow> bool" where
  "hasRequiredRoles u required =
     (if length required = 0 then True
      else list_all (\<lambda>role. role \<in> set (roles u)) required)"

definition hasRequiredPermissions :: "AuthUser \<Rightarrow> string list \<Rightarrow> bool" where
  "hasRequiredPermissions u required =
     (if length required = 0 then True
      else list_all (\<lambda>permission. permission \<in> set (permissions u)) required)"

definition hasSecureAccess :: "int \<Rightarrow> AuthState \<Rightarrow> bool" where
  "hasSecureAccess now authState =
     (case loginTime authState of
        None \<Rightarrow> False
      | Some InvalidDate \<Rightarrow> False
      | Some (Time l) \<Rightarrow>
          (let secureAccessWindow = 60 * 60 * 1000 in now - l < secureAccessWindow))"

text \<open>\<^verbatim>\<open>routeData?.requiredRoles\<close> and its two siblings.\<close>

definition routeRequiredRoles :: "RouteData option \<Rightarrow> string list option" where
  "routeRequiredRoles routeData =
     (case routeData of None \<Rightarrow> None | Some rd \<Rightarrow> requiredRoles rd)"

definition routeRequiredPermissions :: "RouteData option \<Rightarrow> string list option" where
  "routeRequiredPermissions routeData =
     (case routeData of None \<Rightarrow> None | Some rd \<Rightarrow> requiredPermissions rd)"

definition routeRequiresSecureAccess :: "RouteData option \<Rightarrow> bool" where
  "routeRequiresSecureAccess routeData =
     (case routeData of None \<Rightarrow> False | Some rd \<Rightarrow> requiresSecureAccess rd)"

text \<open>
  \<^verbatim>\<open>validateAuthState\<close> returns a boolean; which check refused is visible only in the
  calls it makes before returning, so the model returns both.
\<close>

definition validateAuthState ::
    "AuthState \<Rightarrow> RouteData option \<Rightarrow> int \<Rightarrow> bool \<times> SideEffect list" where
  "validateAuthState authState routeData now =
     (if \<not> isAuthenticated authState \<or> user authState = None then
        (False, [LogWarning ''User not authenticated''])
      else
        let u = the (user authState) in
        if \<not> isActive u then
          (False, [ShowError ''Account Suspended'',
                   LogWarning ''Inactive user attempted access''])
        else if isTokenExpired now (expiresAt authState) then
          (False, [LogInfo ''Token expired''])
        else if isSessionExpired now (lastActivity authState) then
          (False, [LogInfo ''Session expired due to inactivity'',
                   ShowWarning ''Session Expired''])
        else if (case routeRequiredRoles routeData of
                   None \<Rightarrow> False
                 | Some required \<Rightarrow> \<not> hasRequiredRoles u required) then
          (False, [LogWarning ''User lacks required roles''])
        else if (case routeRequiredPermissions routeData of
                   None \<Rightarrow> False
                 | Some required \<Rightarrow> \<not> hasRequiredPermissions u required) then
          (False, [LogWarning ''User lacks required permissions''])
        else if routeRequiresSecureAccess routeData \<and> \<not> hasSecureAccess now authState then
          (False, [LogWarning ''Secure access required but not available''])
        else (True, []))"




subsection \<open>AuthService: collaborators\<close>

text \<open>
  The replies of the remote authentication service. The interfaces declare
  \<^verbatim>\<open>user\<close>, \<^verbatim>\<open>token\<close>, \<^verbatim>\<open>refreshToken\<close> and \<^verbatim>\<open>sessionId\<close> as always present,
  but a reply is whatever the network delivers, cast to the interface without a check:
  each of them may be missing. \<open>login_expiresAt\<close> and \<open>refresh_expiresAt\<close> are the
  dates that \<^verbatim>\<open>new Date(response.expiresAt)\<close> builds, an Invalid Date when the text is
  missing or no date. The field names carry the name of their interface, because the
  source uses \<^verbatim>\<open>token\<close> and \<^verbatim>\<open>expiresAt\<close> in three interfaces.
\<close>

record LoginResponse =
  login_success :: bool
  login_message :: "string option"
  login_user :: "AuthUser option"
  login_token :: "string option"
  login_refreshToken :: "string option"
  login_expiresAt :: Date
  login_sessionId :: "string option"

record RefreshTokenResponse =
  refresh_success :: bool
  refresh_token :: "string option"
  refresh_expiresAt :: Date
  refresh_sessionId :: "string option"

text \<open>
  What an awaited \<^verbatim>\<open>http.post(...).toPromise()\<close> does: it rejects, or it resolves
  with a body or with \<^verbatim>\<open>undefined\<close>.
\<close>

datatype 'r HttpOutcome = HttpFailure | HttpResponse "'r option"

datatype LogoutReason = user_logout | session_timeout | security_logout

text \<open>
  The item of the browser's local storage under the key \<^verbatim>\<open>auth-state\<close>: absent, or a
  text that is empty, that \<^verbatim>\<open>JSON.parse\<close> rejects, or that is the JSON of a snapshot
  (given as the state that \<^verbatim>\<open>initializeAuthState\<close> builds from it, a date text that is
  no date giving an Invalid Date).
  \<^verbatim>\<open>setItem\<close> throws when the quota is exceeded; \<^verbatim>\<open>getItem\<close> and
  \<^verbatim>\<open>removeItem\<close> have no error condition in the Web Storage interface.
\<close>

datatype StoredText = EmptyText | Malformed | Snapshot AuthState

record LocalStorage =
  authStateItem :: "StoredText option"
  quotaExceeded :: bool

definition getItem :: "LocalStorage \<Rightarrow> StoredText option" where
  "getItem storage = authStateItem storage"

definition setItem :: "StoredText \<Rightarrow> LocalStorage \<Rightarrow> LocalStorage option" where
  "setItem text storage =
     (if quotaExceeded storage then None
      else Some (storage\<lparr>authStateItem := Some text\<rparr>))"

definition removeItem :: "LocalStorage \<Rightarrow> LocalStorage" where
  "removeItem storage = storage\<lparr>authStateItem := None\<rparr>"

subsection \<open>AuthService: state and operations\<close>

text \<open>
  The fields of the service: the current value of \<^verbatim>\<open>authStateSubject\<close>, the two timer
  handles (a pending one-shot refresh timer with its delay, the interval timer of the
  activity check with its period) and the storage it writes to. An awaited remote call is
  one step of the model: the operation takes the outcome of the call as an argument.
\<close>

record AuthService =
  authStateSubject :: AuthState
  refreshTokenTimer :: "int option"
  activityCheckTimer :: "int option"
  localStorage :: LocalStorage

definition clearedState :: AuthState where
  "clearedState =
     \<lparr>isAuthenticated = False, user = None, token = None, refreshToken = None,
      expiresAt = None, loginTime = None, lastActivity = None\<rparr>"

text \<open>
  \<^verbatim>\<open>JSON.stringify\<close> writes an Invalid Date as \<^verbatim>\<open>null\<close>, which
  \<^verbatim>\<open>initializeAuthState\<close> reads back as \<^verbatim>\<open>null\<close>; a date is written as its ISO text
  and read back as the same date.
\<close>

definition jsonDate :: "Date option \<Rightarrow> Date option" where
  "jsonDate d = (case d of Some (Time t) \<Rightarrow> Some (Time t) | _ \<Rightarrow> None)"

definition storeAuthState :: "AuthState \<Rightarrow> LocalStorage \<Rightarrow> SideEffect list \<times> LocalStorage" where
  "storeAuthState authState storage =
     (let stateToStore = authState
            \<lparr>token := (if isAuthenticated authState then token authState else None),
             refreshToken := (if isAuthenticated authState then refreshToken authState else None),
             expiresAt := jsonDate (expiresAt authState),
             loginTime := jsonDate (loginTime authState),
             lastActivity := jsonDate (lastActivity authState)\<rparr>
      in case setItem (Snapshot stateToStore) storage of
           None \<Rightarrow> ([LogError ''Failed to store auth state''], storage)
         | Some storage' \<Rightarrow> ([], storage'))"

definition clearStoredAuth :: "LocalStorage \<Rightarrow> LocalStorage" where
  "clearStoredAuth storage = removeItem storage"

definition updateAuthState :: "AuthState \<Rightarrow> AuthService \<Rightarrow> SideEffect list \<times> AuthService" where
  "updateAuthState authState svc =
     (let (logged, storage') = storeAuthState authState (localStorage svc)
      in (logged, svc\<lparr>authStateSubject := authState, localStorage := storage'\<rparr>))"

definition clearAuthState :: "AuthService \<Rightarrow> SideEffect list \<times> AuthService" where
  "clearAuthState svc =
     (let (logged, svc') = updateAuthState clearedState svc
      in (logged, svc'\<lparr>localStorage := clearStoredAuth (localStorage svc')\<rparr>))"

definition clearRefreshTimer :: "AuthService \<Rightarrow> AuthService" where
  "clearRefreshTimer svc =
     (if refreshTokenTimer svc \<noteq> None then svc\<lparr>refreshTokenTimer := None\<rparr> else svc)"

definition clearActivityTimer :: "AuthService \<Rightarrow> AuthService" where
  "clearActivityTimer svc =
     (if activityCheckTimer svc \<noteq> None then svc\<lparr>activityCheckTimer := None\<rparr> else svc)"

definition clearTimers :: "AuthService \<Rightarrow> AuthService" where
  "clearTimers svc = clearActivityTimer (clearRefreshTimer svc)"

definition scheduleTokenRefresh :: "int \<Rightarrow> Date option \<Rightarrow> AuthService \<Rightarrow> AuthService" where
  "scheduleTokenRefresh now expiry svc =
     (let svc' = clearRefreshTimer svc in
      case expiry of
        None \<Rightarrow> svc'
      | Some InvalidDate \<Rightarrow> svc'
      | Some (Time e) \<Rightarrow>
          (let refreshTime = e - now - 10 * 60 * 1000 in
           if refreshTime > 0 then svc'\<lparr>refreshTokenTimer := Some refreshTime\<rparr> else svc'))"

text \<open>
  \<^verbatim>\<open>login\<close>: the result is the new snapshot or the message of the error thrown. The
  snapshot is published, stored and scheduled before the success is logged; the log call
  reads \<^verbatim>\<open>response.user.id\<close>, which throws when the reply has no user, and the
  \<^verbatim>\<open>catch\<close> block then logs and rethrows without undoing what was done.
\<close>

definition login ::
    "int \<Rightarrow> LoginResponse HttpOutcome \<Rightarrow> AuthService
       \<Rightarrow> (string + AuthState) \<times> SideEffect list \<times> AuthService" where
  "login now outcome svc =
     (case (case outcome of
              HttpFailure \<Rightarrow> None
            | HttpResponse None \<Rightarrow> None
            | HttpResponse (Some response) \<Rightarrow>
                if login_success response then Some response else None) of
        None \<Rightarrow>
          (Inl ''Login failed. Please check your credentials.'',
           [LogInfo ''Login attempt started'', LogError ''Login failed''], svc)
      | Some response \<Rightarrow>
          (let authState =
                 \<lparr>isAuthenticated = True, user = login_user response,
                  token = login_token response,
                  refreshToken = login_refreshToken response,
                  expiresAt = Some (login_expiresAt response),
                  loginTime = Some (Time now), lastActivity = Some (Time now)\<rparr>;
               (logged, svc') = updateAuthState authState svc;
               svc'' = scheduleTokenRefresh now (expiresAt authState) svc'
           in if login_user response = None then
                (Inl ''Login failed. Please check your credentials.'',
                 [LogInfo ''Login attempt started''] @ logged @ [LogError ''Login failed''],
                 svc'')
              else
                (Inr authState,
                 [LogInfo ''Login attempt started''] @ logged @ [LogInfo ''Login successful''],
                 svc'')))"

text \<open>
  \<^verbatim>\<open>logout\<close>: the remote call is made only when the current token is a non-empty
  string; the \<^verbatim>\<open>finally\<close> block runs whatever happened before it.
\<close>

definition logout ::
    "LogoutReason \<Rightarrow> unit HttpOutcome \<Rightarrow> AuthService \<Rightarrow> SideEffect list \<times> AuthService" where
  "logout reason outcome svc =
     (let currentState = authStateSubject svc;
          attempted =
            (if truthy (token currentState) then
               (case outcome of
                  HttpFailure \<Rightarrow> [LogError ''Logout request failed'']
                | HttpResponse _ \<Rightarrow> [LogInfo ''Logout successful''])
             else []);
          (logged, svc') = clearAuthState svc
      in (attempted @ logged @ [Navigate ''/login''], clearTimers svc'))"

text \<open>
  \<^verbatim>\<open>refreshToken\<close> (the method; the state's field of that name is
  \<^const>\<open>refreshToken\<close>): every failure passes through the \<^verbatim>\<open>catch\<close> block, which
  clears the state and rethrows. On the success path nothing throws: a reply without a
  token gives a snapshot without a token.
\<close>

definition AuthService_refreshToken ::
    "int \<Rightarrow> RefreshTokenResponse HttpOutcome \<Rightarrow> AuthService
       \<Rightarrow> (string + AuthState) \<times> SideEffect list \<times> AuthService" where
  "AuthService_refreshToken now outcome svc =
     (let currentState = authStateSubject svc;
          attempt =
            (if \<not> truthy (refreshToken currentState) then Inl ''No refresh token available''
             else case outcome of
                    HttpFailure \<Rightarrow> Inl ''HTTP request failed''
                  | HttpResponse None \<Rightarrow> Inl ''Token refresh failed''
                  | HttpResponse (Some response) \<Rightarrow>
                      if refresh_success response then Inr response
                      else Inl ''Token refresh failed'')
      in case attempt of
           Inr response \<Rightarrow>
             (let newAuthState = currentState
                    \<lparr>token := refresh_token response,
                     expiresAt := Some (refresh_expiresAt response),
                     lastActivity := Some (Time now)\<rparr>;
                  (logged, svc') = updateAuthState newAuthState svc;
                  svc'' = scheduleTokenRefresh now (expiresAt newAuthState) svc'
              in (Inr newAuthState, logged @ [LogInfo ''Token refresh successful''], svc''))
         | Inl error \<Rightarrow>
             (let (logged, svc') = clearAuthState svc
              in (Inl error, [LogError ''Token refresh failed''] @ logged, svc')))"

definition updateLastActivity :: "int \<Rightarrow> AuthService \<Rightarrow> AuthService" where
  "updateLastActivity now svc =
     (let currentState = authStateSubject svc in
      if isAuthenticated currentState then
        svc\<lparr>authStateSubject := currentState\<lparr>lastActivity := Some (Time now)\<rparr>\<rparr>
      else svc)"

definition isValidStoredAuth :: "int \<Rightarrow> AuthState \<Rightarrow> bool" where
  "isValidStoredAuth now authState =
     (isAuthenticated authState \<and> user authState \<noteq> None \<and> truthy (token authState)
      \<and> (case expiresAt authState of None \<Rightarrow> False | Some e \<Rightarrow> nowBefore now e))"

definition initializeAuthState :: "int \<Rightarrow> AuthService \<Rightarrow> SideEffect list \<times> AuthService" where
  "initializeAuthState now svc =
     (case getItem (localStorage svc) of
        None \<Rightarrow> ([], svc)
      | Some EmptyText \<Rightarrow> ([], svc)
      | Some Malformed \<Rightarrow>
          (let (logged, svc') = clearAuthState svc
           in ([LogError ''Failed to initialize auth state''] @ logged, svc'))
      | Some (Snapshot authState) \<Rightarrow>
          if isValidStoredAuth now authState then
            ([LogInfo ''Auth state restored from storage''],
             scheduleTokenRefresh now (expiresAt authState) (svc\<lparr>authStateSubject := authState\<rparr>))
          else
            (let (logged, svc') = clearAuthState svc
             in (logged @ [LogInfo ''Invalid stored auth state cleared''], svc')))"

definition setupActivityMonitoring :: "AuthService \<Rightarrow> AuthService" where
  "setupActivityMonitoring svc = svc\<lparr>activityCheckTimer := Some 60000\<rparr>"

text \<open>The constructor, on the storage the browser holds at that moment.\<close>

definition newAuthService :: "int \<Rightarrow> LocalStorage \<Rightarrow> AuthService" where
  "newAuthService now storage =
     setupActivityMonitoring
       (snd (initializeAuthState now
          \<lparr>authStateSubject = clearedState, refreshTokenTimer = None,
           activityCheckTimer = None, localStorage = storage\<rparr>))"

text \<open>
  The two timer callbacks. The refresh timer calls \<^verbatim>\<open>refreshToken\<close> and, when that
  fails, \<^verbatim>\<open>logout('session_timeout')\<close>; the activity check logs out a session idle for
  more than thirty minutes.
\<close>

definition refreshTimerFires ::
    "int \<Rightarrow> RefreshTokenResponse HttpOutcome \<Rightarrow> unit HttpOutcome \<Rightarrow> AuthService \<Rightarrow> AuthService" where
  "refreshTimerFires now outcome logoutOutcome svc =
     (case AuthService_refreshToken now outcome svc of
        (Inr _, _, svc') \<Rightarrow> svc'
      | (Inl _, _, svc') \<Rightarrow> snd (logout session_timeout logoutOutcome svc'))"

definition activityCheck :: "int \<Rightarrow> unit HttpOutcome \<Rightarrow> AuthService \<Rightarrow> AuthService" where
  "activityCheck now logoutOutcome svc =
     (let currentState = authStateSubject svc in
      case lastActivity currentState of
        None \<Rightarrow> svc
      | Some InvalidDate \<Rightarrow> svc
      | Some (Time l) \<Rightarrow>
          if isAuthenticated currentState \<and> now - l > 30 * 60 * 1000 then
            snd (logout session_timeout logoutOutcome svc)
          else svc)"

text \<open>The operations of the service as events, and a run of events.\<close>

datatype AuthEvent =
    Login int "LoginResponse HttpOutcome"
  | Logout LogoutReason "unit HttpOutcome"
  | RefreshToken int "RefreshTokenResponse HttpOutcome"
  | UpdateLastActivity int
  | ClearAuthState
  | RefreshTimerFires int "RefreshTokenResponse HttpOutcome" "unit HttpOutcome"
  | ActivityCheck int "unit HttpOutcome"
  | StorageQuota bool

fun authStep :: "AuthEvent \<Rightarrow> AuthService \<Rightarrow> AuthService" where
  "authStep (Login now outcome) svc = snd (snd (login now outcome svc))"
| "authStep (Logout reason outcome) svc = snd (logout reason outcome svc)"
| "authStep (RefreshToken now outcome) svc = snd (snd (AuthService_refreshToken now outcome svc))"
| "authStep (UpdateLastActivity now) svc = updateLastActivity now svc"
| "authStep ClearAuthState svc = snd (clearAuthState svc)"
| "authStep (RefreshTimerFires now outcome logoutOutcome) svc =
     refreshTimerFires now outcome logoutOutcome svc"
| "authStep (ActivityCheck now logoutOutcome) svc = activityCheck now logoutOutcome svc"
| "authStep (StorageQuota full) svc =
     svc\<lparr>localStorage := (localStorage svc)\<lparr>quotaExceeded := full\<rparr>\<rparr>"

definition authRun :: "AuthEvent list \<Rightarrow> AuthService \<Rightarrow> AuthService" where
  "authRun events svc = fold authStep events svc"

text \<open>The invariant of a snapshot that section 3 of the specification states.\<close>

definition sessionInvariant :: "AuthState \<Rightarrow> bool" where
  "sessionInvariant s =
     (isAuthenticated s \<longrightarrow> user s \<noteq> None \<and> token s \<noteq> None \<and> expiresAt s \<noteq> None)"

text \<open>
  An event whose reply, when it reports success, carries what its interface declares and
  the invariant needs: a login reply its user and its token, a refresh reply its token.
\<close>

fun replyAsDeclared :: "AuthEvent \<Rightarrow> bool" where
  "replyAsDeclared (Login now (HttpResponse (Some response))) =
     (login_success response \<longrightarrow> login_user response \<noteq> None \<and> login_token response \<noteq> None)"
| "replyAsDeclared (RefreshToken now (HttpResponse (Some response))) =
     (refresh_success response \<longrightarrow> refresh_token response \<noteq> None)"
| "replyAsDeclared (RefreshTimerFires now (HttpResponse (Some response)) logoutOutcome) =
     (refresh_success response \<longrightarrow> refresh_token response \<noteq> None)"
| "replyAsDeclared event = True"

section \<open>CacheService (src/unnamed/part\_001)\<close>

subsection \<open>Data\<close>

text \<open>
  \<open>timestamp\<close> and \<open>lastAccessed\<close> of an entry are clock values, read by
  \<^verbatim>\<open>new Date()\<close> in \<^verbatim>\<open>set\<close> and \<^verbatim>\<open>get\<close>. \<open>expiresAt\<close> is built by
  \<^verbatim>\<open>new Date(now.getTime() + expirationTime)\<close> and is an Invalid Date when the sum
  leaves the range of dates.
\<close>

record 'a CacheItem =
  key :: string
  data :: 'a
  timestamp :: int
  expiresAt :: Date
  accessCount :: nat
  lastAccessed :: int

text \<open>
  The configuration is a constant of the class, \<open>classConfig\<close>; the operations of the
  model take the configuration as a parameter. \<open>maxSize\<close> is a number of entries; the
  times to live are whole numbers of milliseconds (the sum of a clock value and a
  fraction is outside the model).
\<close>

record CacheConfig =
  defaultTtl :: int
  maxSize :: nat
  cleanupInterval :: int
  enablePersistence :: bool

definition classConfig :: CacheConfig where
  "classConfig =
     \<lparr>defaultTtl = 5 * 60 * 1000, maxSize = 100, cleanupInterval = 60 * 1000,
      enablePersistence = True\<rparr>"

text \<open>
  A JavaScript \<^verbatim>\<open>Map\<close> iterates in insertion order, and \<^verbatim>\<open>enforceMaxSize\<close> sorts
  what it iterates, so the store is the list of its entries in that order. \<^verbatim>\<open>Map.set\<close>
  on a key that is present replaces the value where it stands; on a new key it appends.
\<close>

type_synonym 'a Cache = "(string \<times> 'a CacheItem) list"

fun Map_set :: "string \<Rightarrow> 'v \<Rightarrow> (string \<times> 'v) list \<Rightarrow> (string \<times> 'v) list" where
  "Map_set k v [] = [(k, v)]"
| "Map_set k v (e # m) = (if fst e = k then (k, v) # m else e # Map_set k v m)"

definition Map_get :: "string \<Rightarrow> (string \<times> 'v) list \<Rightarrow> 'v option" where
  "Map_get k m = map_of m k"

definition Map_delete :: "string \<Rightarrow> (string \<times> 'v) list \<Rightarrow> (string \<times> 'v) list" where
  "Map_delete k m = filter (\<lambda>e. fst e \<noteq> k) m"

definition Map_keys :: "(string \<times> 'v) list \<Rightarrow> string list" where
  "Map_keys m = map fst m"

text \<open>A list is a \<^verbatim>\<open>Map\<close> when no key occurs twice in it.\<close>

definition isMap :: "(string \<times> 'v) list \<Rightarrow> bool" where
  "isMap m = distinct (Map_keys m)"

subsection \<open>Operations\<close>

text \<open>
  The operations return the store they leave. \<^verbatim>\<open>notifyChange\<close> and
  \<^verbatim>\<open>saveToStorage\<close> publish and persist copies of the store and do not change it.
\<close>

definition isExpired :: "int \<Rightarrow> 'a CacheItem \<Rightarrow> bool" where
  "isExpired now item = nowAfter now (expiresAt item)"

text \<open>
  \<^verbatim>\<open>Array.prototype.sort\<close> is stable, as is \<^const>\<open>sort_key\<close>: entries with equal
  \<open>lastAccessed\<close> keep the order of the \<^verbatim>\<open>Map\<close>.
\<close>

definition enforceMaxSize :: "CacheConfig \<Rightarrow> 'a Cache \<Rightarrow> 'a Cache" where
  "enforceMaxSize config cache =
     (if length cache \<le> maxSize config then cache
      else
        let items = sort_key (\<lambda>e. lastAccessed (snd e)) cache;
            itemsToRemove = take (length cache - maxSize config) items
        in fold (\<lambda>e c. Map_delete (fst e) c) itemsToRemove cache)"

text \<open>
  \<^verbatim>\<open>set\<close>. The time to live is \<^verbatim>\<open>ttl || this.config.defaultTtl\<close>: a missing
  \<open>ttl\<close> and a \<open>ttl\<close> of 0 both select the default.
\<close>

definition cache_set ::
    "CacheConfig \<Rightarrow> int \<Rightarrow> string \<Rightarrow> 'a \<Rightarrow> int option \<Rightarrow> 'a Cache \<Rightarrow> 'a Cache" where
  "cache_set config now k d ttl cache =
     (let expirationTime =
            (case ttl of
               None \<Rightarrow> defaultTtl config
             | Some t \<Rightarrow> if t = 0 then defaultTtl config else t);
          item = \<lparr>key = k, data = d, timestamp = now,
                  expiresAt = newDate (now + expirationTime),
                  accessCount = 0, lastAccessed = now\<rparr>
      in enforceMaxSize config (Map_set k item cache))"

text \<open>\<^verbatim>\<open>get\<close>: the value returned (\<^verbatim>\<open>null\<close> is \<open>None\<close>) and the store.\<close>

definition cache_get :: "int \<Rightarrow> string \<Rightarrow> 'a Cache \<Rightarrow> 'a option \<times> 'a Cache" where
  "cache_get now k cache =
     (case Map_get k cache of
        None \<Rightarrow> (None, cache)
      | Some item \<Rightarrow>
          if isExpired now item then (None, Map_delete k cache)
          else
            (Some (data item),
             Map_set k (item\<lparr>accessCount := accessCount item + 1, lastAccessed := now\<rparr>) cache))"

definition cache_has :: "int \<Rightarrow> string \<Rightarrow> 'a Cache \<Rightarrow> bool \<times> 'a Cache" where
  "cache_has now k cache =
     (case Map_get k cache of
        None \<Rightarrow> (False, cache)
      | Some item \<Rightarrow>
          if isExpired now item then (False, Map_delete k cache) else (True, cache))"

definition cache_delete :: "string \<Rightarrow> 'a Cache \<Rightarrow> bool \<times> 'a Cache" where
  "cache_delete k cache = (k \<in> set (Map_keys cache), Map_delete k cache)"

definition cache_clear :: "'a Cache \<Rightarrow> 'a Cache" where
  "cache_clear cache = []"

definition cleanup :: "int \<Rightarrow> 'a Cache \<Rightarrow> 'a Cache" where
  "cleanup now cache =
     (let keysToDelete = map fst (filter (\<lambda>e. nowAfter now (expiresAt (snd e))) cache)
      in fold Map_delete keysToDelete cache)"

definition cache_keys :: "int \<Rightarrow> 'a Cache \<Rightarrow> string list \<times> 'a Cache" where
  "cache_keys now cache = (let cache' = cleanup now cache in (Map_keys cache', cache'))"

definition cache_size :: "int \<Rightarrow> 'a Cache \<Rightarrow> nat \<times> 'a Cache" where
  "cache_size now cache = (let cache' = cleanup now cache in (length cache', cache'))"

text \<open>
  The constructor starts from an empty \<^verbatim>\<open>Map\<close> and calls \<^verbatim>\<open>loadFromStorage\<close>. The
  text under the key \<^verbatim>\<open>cache-service\<close> is absent (or empty), or one that
  \<^verbatim>\<open>JSON.parse\<close> rejects or reads as something other than an array (\<open>UnparsableCache\<close>:
  the \<^verbatim>\<open>catch\<close> leaves the store empty), or an array. An element of the array is a key with an item
  whose dates \<^verbatim>\<open>new Date\<close> has built from their texts (the texts of \<open>timestamp\<close> and
  \<open>lastAccessed\<close> are taken to be dates), or something the callback of \<^verbatim>\<open>forEach\<close>
  cannot take apart: there the callback throws, and the entries before it stay loaded.
  An entry is loaded when its \<open>expiresAt\<close> is later than \<open>now\<close>; nothing else is
  checked, and \<^verbatim>\<open>enforceMaxSize\<close> is not called.
\<close>

datatype 'a StoredCache = UnparsableCache | ParsedCache "(string \<times> 'a CacheItem) option list"

fun loadEntries :: "int \<Rightarrow> (string \<times> 'a CacheItem) option list \<Rightarrow> 'a Cache \<Rightarrow> 'a Cache" where
  "loadEntries now [] cache = cache"
| "loadEntries now (None # rest) cache = cache"
| "loadEntries now (Some (k, item) # rest) cache =
     loadEntries now rest
       (if nowBefore now (expiresAt item) then Map_set k item cache else cache)"

definition loadFromStorage ::
    "CacheConfig \<Rightarrow> int \<Rightarrow> 'a StoredCache option \<Rightarrow> 'a Cache \<Rightarrow> 'a Cache" where
  "loadFromStorage config now stored cache =
     (if \<not> enablePersistence config then cache
      else case stored of
             None \<Rightarrow> cache
           | Some UnparsableCache \<Rightarrow> cache
           | Some (ParsedCache entries) \<Rightarrow> loadEntries now entries cache)"

definition newCacheService :: "CacheConfig \<Rightarrow> int \<Rightarrow> 'a StoredCache option \<Rightarrow> 'a Cache" where
  "newCacheService config now stored = loadFromStorage config now stored []"

text \<open>The operations as events, each with the clock value it reads, and a run of events.\<close>

datatype 'a CacheOp =
    Set string 'a "int option"
  | Get string
  | Has string
  | Delete string
  | Clear
  | Cleanup

fun cacheStep :: "CacheConfig \<Rightarrow> int \<times> 'a CacheOp \<Rightarrow> 'a Cache \<Rightarrow> 'a Cache" where
  "cacheStep config (now, Set k d ttl) cache = cache_set config now k d ttl cache"
| "cacheStep config (now, Get k) cache = snd (cache_get now k cache)"
| "cacheStep config (now, Has k) cache = snd (cache_has now k cache)"
| "cacheStep config (now, Delete k) cache = snd (cache_delete k cache)"
| "cacheStep config (now, Clear) cache = cache_clear cache"
| "cacheStep config (now, Cleanup) cache = cleanup now cache"

definition cacheRun :: "CacheConfig \<Rightarrow> (int \<times> 'a CacheOp) list \<Rightarrow> 'a Cache \<Rightarrow> 'a Cache" where
  "cacheRun config ops cache = fold (cacheStep config) ops cache"

text \<open>
  The entry that the wording of section 4.1 of the specification selects for eviction,
  "the least-recently-used entry (by lastAccessedAt, ties broken by earliest createdAt)":
  an entry of the store that is minimal in \<open>lastAccessed\<close> and, among those, in
  \<open>timestamp\<close>.
\<close>

definition olderThan_spec :: "'a CacheItem \<Rightarrow> 'a CacheItem \<Rightarrow> bool" where
  "olderThan_spec a b =
     (lastAccessed a < lastAccessed b
      \<or> (lastAccessed a = lastAccessed b \<and> timestamp a < timestamp b))"

fun lru_spec :: "'a Cache \<Rightarrow> (string \<times> 'a CacheItem) option" where
  "lru_spec [] = None"
| "lru_spec (e # m) =
     (case lru_spec m of
        None \<Rightarrow> Some e
      | Some e' \<Rightarrow> if olderThan_spec (snd e') (snd e) then Some e' else Some e)"

section \<open>Properties of the session guard\<close>

subsection \<open>The checks of the guard, as conditions on the state\<close>

lemma isTokenExpired_iff:
  "isTokenExpired now expiry \<longleftrightarrow>
     \<not> (expiry = Some InvalidDate \<or> (\<exists>e. expiry = Some (Time e) \<and> now < e - 300000))"
  by (auto simp: isTokenExpired_def split: option.splits Date.splits)

lemma isSessionExpired_iff:
  "isSessionExpired now lastAct \<longleftrightarrow>
     \<not> (\<forall>l. lastAct = Some (Time l) \<longrightarrow> now - l \<le> 1800000)"
  by (auto simp: isSessionExpired_def split: option.splits Date.splits)

lemma hasRequiredRoles_iff:
  "hasRequiredRoles u required \<longleftrightarrow> set required \<subseteq> set (roles u)"
  by (auto simp: hasRequiredRoles_def list_all_iff)

lemma hasRequiredPermissions_iff:
  "hasRequiredPermissions u required \<longleftrightarrow> set required \<subseteq> set (permissions u)"
  by (auto simp: hasRequiredPermissions_def list_all_iff)

lemma hasSecureAccess_iff:
  "hasSecureAccess now s \<longleftrightarrow> (\<exists>t. loginTime s = Some (Time t) \<and> now - t < 3600000)"
  by (auto simp: hasSecureAccess_def split: option.splits Date.splits)

lemma rolesCheck_iff:
  "(case routeRequiredRoles rd of None \<Rightarrow> False | Some required \<Rightarrow> \<not> hasRequiredRoles u required)
   \<longleftrightarrow> \<not> (\<forall>required. routeRequiredRoles rd = Some required \<longrightarrow> set required \<subseteq> set (roles u))"
  by (auto simp: hasRequiredRoles_iff split: option.splits)

lemma permissionsCheck_iff:
  "(case routeRequiredPermissions rd of None \<Rightarrow> False
    | Some required \<Rightarrow> \<not> hasRequiredPermissions u required)
   \<longleftrightarrow> \<not> (\<forall>required. routeRequiredPermissions rd = Some required
            \<longrightarrow> set required \<subseteq> set (permissions u))"
  by (auto simp: hasRequiredPermissions_iff split: option.splits)

subsection \<open>The order of the checks\<close>




subsection \<open>The step-up window\<close>

text \<open>
  Claim C9, as amended. For a state that passes the six earlier checks and a request with
  the step-up flag, \<^const>\<open>validateAuthState\<close> allows exactly when a login time is
  present, is a date, and \<open>now - loginTime\<close> is strictly less than one hour; otherwise
  it refuses with the call of the step-up check alone.
\<close>

theorem hasSecureAccess_window_open:
  assumes "isAuthenticated s" and "user s = Some u" and "isActive u"
    and "AuthState.expiresAt s = Some InvalidDate
           \<or> (\<exists>e. AuthState.expiresAt s = Some (Time e) \<and> now < e - 300000)"
    and "\<forall>l. lastActivity s = Some (Time l) \<longrightarrow> now - l \<le> 1800000"
    and "\<forall>required. routeRequiredRoles rd = Some required \<longrightarrow> set required \<subseteq> set (roles u)"
    and "\<forall>required. routeRequiredPermissions rd = Some required
           \<longrightarrow> set required \<subseteq> set (permissions u)"
    and "routeRequiresSecureAccess rd"
  shows "validateAuthState s rd now =
           (if \<exists>t. loginTime s = Some (Time t) \<and> now - t < 60 * 60 * 1000 then (True, [])
            else (False, [LogWarning ''Secure access required but not available'']))"
proof -
  have "\<not> isTokenExpired now (AuthState.expiresAt s)"
    using assms(4) by (simp add: isTokenExpired_iff)
  moreover have "\<not> isSessionExpired now (lastActivity s)"
    using assms(5) by (simp add: isSessionExpired_iff)
  moreover have "\<not> (case routeRequiredRoles rd of None \<Rightarrow> False
                     | Some required \<Rightarrow> \<not> hasRequiredRoles u required)"
    using assms(6) by (simp add: rolesCheck_iff)
  moreover have "\<not> (case routeRequiredPermissions rd of None \<Rightarrow> False
                     | Some required \<Rightarrow> \<not> hasRequiredPermissions u required)"
    using assms(7) by (simp add: permissionsCheck_iff)
  ultimately show ?thesis
    using assms(1,2,3,8) by (simp add: validateAuthState_def hasSecureAccess_iff)
qed

text \<open>The theorem one millisecond inside the window.\<close>

theorem hasSecureAccess_window_open_witness:
  "validateAuthState
     \<lparr>isAuthenticated = True,
      user = Some \<lparr>userId = 3, email = ''v@example.org'', roles = [''admin''],
                   permissions = [], isActive = True\<rparr>,
      token = Some ''t2'', refreshToken = None, AuthState.expiresAt = Some (Time 9000000),
      loginTime = Some (Time 1000), lastActivity = None\<rparr>
     (Some \<lparr>requiredRoles = None, requiredPermissions = Some [],
            requiresSecureAccess = True\<rparr>)
     3600999
   = (True, [])"
  using hasSecureAccess_window_open
    [of "\<lparr>isAuthenticated = True,
      user = Some \<lparr>userId = 3, email = ''v@example.org'', roles = [''admin''],
                   permissions = [], isActive = True\<rparr>,
      token = Some ''t2'', refreshToken = None, AuthState.expiresAt = Some (Time 9000000),
      loginTime = Some (Time 1000), lastActivity = None\<rparr>"
     "\<lparr>userId = 3, email = ''v@example.org'', roles = [''admin''],
                   permissions = [], isActive = True\<rparr>"
     3600999
     "Some \<lparr>requiredRoles = None, requiredPermissions = Some [],
            requiresSecureAccess = True\<rparr>"]
  by (simp add: routeRequiredRoles_def routeRequiredPermissions_def
        routeRequiresSecureAccess_def)

text \<open>
  Claim C9 as stated fails at the end of the window: \<open>now - loginTime\<close> is exactly one
  hour, which the claim allows, and the guard refuses.
\<close>

theorem hasSecureAccess_refuses_at_one_hour:
  "(3601000::int) - 1000 \<le> 60 * 60 * 1000
   \<and> validateAuthState
     \<lparr>isAuthenticated = True,
      user = Some \<lparr>userId = 3, email = ''v@example.org'', roles = [''admin''],
                   permissions = [], isActive = True\<rparr>,
      token = Some ''t2'', refreshToken = None, AuthState.expiresAt = Some (Time 9000000),
      loginTime = Some (Time 1000), lastActivity = None\<rparr>
     (Some \<lparr>requiredRoles = None, requiredPermissions = None,
            requiresSecureAccess = True\<rparr>)
     3601000
   = (False, [LogWarning ''Secure access required but not available''])"
  by (simp add: validateAuthState_def isTokenExpired_def
        isSessionExpired_def hasRequiredRoles_def hasRequiredPermissions_def
        hasSecureAccess_def routeRequiredRoles_def routeRequiredPermissions_def
        routeRequiresSecureAccess_def)

section \<open>Properties of the session manager\<close>

subsection \<open>What the building blocks leave behind\<close>

lemma clearAuthState_subject [simp]:
  "authStateSubject (snd (clearAuthState svc)) = clearedState"
  by (simp add: clearAuthState_def updateAuthState_def split: prod.splits)

lemma clearAuthState_item [simp]:
  "authStateItem (localStorage (snd (clearAuthState svc))) = None"
  by (simp add: clearAuthState_def updateAuthState_def clearStoredAuth_def removeItem_def
      split: prod.splits)

lemma clearAuthState_timers [simp]:
  "refreshTokenTimer (snd (clearAuthState svc)) = refreshTokenTimer svc"
  "activityCheckTimer (snd (clearAuthState svc)) = activityCheckTimer svc"
  by (simp_all add: clearAuthState_def updateAuthState_def split: prod.splits)

lemma clearTimers_fields [simp]:
  "refreshTokenTimer (clearTimers svc) = None"
  "activityCheckTimer (clearTimers svc) = None"
  "authStateSubject (clearTimers svc) = authStateSubject svc"
  "localStorage (clearTimers svc) = localStorage svc"
  by (simp_all add: clearTimers_def clearRefreshTimer_def clearActivityTimer_def)

lemma scheduleTokenRefresh_fields [simp]:
  "authStateSubject (scheduleTokenRefresh now expiry svc) = authStateSubject svc"
  "localStorage (scheduleTokenRefresh now expiry svc) = localStorage svc"
  by (simp_all add: scheduleTokenRefresh_def clearRefreshTimer_def Let_def
      split: option.splits Date.splits)

lemma updateAuthState_subject [simp]:
  "authStateSubject (snd (updateAuthState authState svc)) = authState"
  by (simp add: updateAuthState_def split: prod.splits)

lemma clearedState_unauthenticated [simp]: "\<not> isAuthenticated clearedState"
  by (simp add: clearedState_def)

lemma sessionInvariant_clearedState [simp]: "sessionInvariant clearedState"
  by (simp add: sessionInvariant_def clearedState_def)

lemma logout_subject [simp]:
  "authStateSubject (snd (logout reason outcome svc)) = clearedState"
  by (simp add: logout_def Let_def split: prod.splits)
    (metis clearAuthState_subject snd_conv)

lemma logout_item [simp]:
  "authStateItem (localStorage (snd (logout reason outcome svc))) = None"
  by (simp add: logout_def Let_def split: prod.splits)
    (metis clearAuthState_item snd_conv)

lemma logout_refreshTimer [simp]:
  "refreshTokenTimer (snd (logout reason outcome svc)) = None"
  by (simp add: logout_def Let_def split: prod.splits)

lemma initializeAuthState_absent:
  "authStateItem (localStorage svc) = None \<Longrightarrow> initializeAuthState now svc = ([], svc)"
  by (simp add: initializeAuthState_def getItem_def)

subsection \<open>Logout\<close>

text \<open>
  Claim C8. Whatever the state before, whatever the reason, whether the remote call is
  made, succeeds or fails, and whether or not the storage accepts a write: after
  \<^const>\<open>logout\<close> the state in memory is the empty snapshot, which is not authenticated,
  no refresh timer is pending, the storage holds no item, and a service constructed on
  that storage at any later time starts unauthenticated.
\<close>

theorem logout_clears_session:
  "authStateSubject (snd (logout reason outcome svc)) = clearedState
   \<and> \<not> isAuthenticated (authStateSubject (snd (logout reason outcome svc)))
   \<and> refreshTokenTimer (snd (logout reason outcome svc)) = None
   \<and> getItem (localStorage (snd (logout reason outcome svc))) = None
   \<and> \<not> isAuthenticated
         (authStateSubject (newAuthService now' (localStorage (snd (logout reason outcome svc)))))"
  by (simp add: getItem_def newAuthService_def setupActivityMonitoring_def
      initializeAuthState_absent)

subsection \<open>Failed refresh\<close>

lemma refreshToken_fails_iff:
  "isl (fst (AuthService_refreshToken now outcome svc)) \<longleftrightarrow>
     \<not> truthy (refreshToken (authStateSubject svc)) \<or> outcome = HttpFailure
     \<or> outcome = HttpResponse None
     \<or> (\<exists>r. outcome = HttpResponse (Some r) \<and> \<not> refresh_success r)"
  by (auto simp: AuthService_refreshToken_def Let_def
      split: HttpOutcome.splits option.splits prod.splits)

lemma refreshToken_failed_state:
  assumes "isl (fst (AuthService_refreshToken now outcome svc))"
  shows "snd (snd (AuthService_refreshToken now outcome svc)) = snd (clearAuthState svc)"
  using assms
  by (auto simp: AuthService_refreshToken_def Let_def
      split: HttpOutcome.splits option.splits prod.splits if_splits)

text \<open>
  Claim C10. \<^const>\<open>AuthService_refreshToken\<close> fails exactly when the state holds no
  refresh token (or an empty one), or the remote call is rejected, resolves with no body,
  or answers without success. Whenever it fails, the state it leaves in memory is the
  empty snapshot, which is not authenticated, and the storage holds no item: the service
  has cleared both itself, before the error reaches any caller.
\<close>

theorem refreshToken_failure_clears_session:
  "(isl (fst (AuthService_refreshToken now outcome svc)) \<longleftrightarrow>
      \<not> truthy (refreshToken (authStateSubject svc)) \<or> outcome = HttpFailure
      \<or> outcome = HttpResponse None
      \<or> (\<exists>r. outcome = HttpResponse (Some r) \<and> \<not> refresh_success r))
   \<and> (isl (fst (AuthService_refreshToken now outcome svc)) \<longrightarrow>
        authStateSubject (snd (snd (AuthService_refreshToken now outcome svc))) = clearedState
        \<and> \<not> isAuthenticated (authStateSubject (snd (snd (AuthService_refreshToken now outcome svc))))
        \<and> getItem (localStorage (snd (snd (AuthService_refreshToken now outcome svc)))) = None)"
  using refreshToken_fails_iff [of now outcome svc]
        refreshToken_failed_state [of now outcome svc]
  by (auto simp: getItem_def clearedState_def)

text \<open>The theorem at an authenticated service whose remote call is rejected.\<close>

theorem refreshToken_failure_clears_session_witness:
  "isl (fst (AuthService_refreshToken 5000 HttpFailure
       \<lparr>authStateSubject =
          \<lparr>isAuthenticated = True,
           user = Some \<lparr>userId = 1, email = ''w@example.org'', roles = [], permissions = [],
                        isActive = True\<rparr>,
           token = Some ''t3'', refreshToken = Some ''r3'', AuthState.expiresAt = Some (Time 900000),
           loginTime = Some (Time 0), lastActivity = Some (Time 0)\<rparr>,
        refreshTokenTimer = Some 300000, activityCheckTimer = Some 60000,
        localStorage = \<lparr>authStateItem = Some Malformed, quotaExceeded = True\<rparr>\<rparr>))
   \<and> authStateSubject (snd (snd (AuthService_refreshToken 5000 HttpFailure
       \<lparr>authStateSubject =
          \<lparr>isAuthenticated = True,
           user = Some \<lparr>userId = 1, email = ''w@example.org'', roles = [], permissions = [],
                        isActive = True\<rparr>,
           token = Some ''t3'', refreshToken = Some ''r3'', AuthState.expiresAt = Some (Time 900000),
           loginTime = Some (Time 0), lastActivity = Some (Time 0)\<rparr>,
        refreshTokenTimer = Some 300000, activityCheckTimer = Some 60000,
        localStorage = \<lparr>authStateItem = Some Malformed, quotaExceeded = True\<rparr>\<rparr>)))
     = clearedState
   \<and> getItem (localStorage (snd (snd (AuthService_refreshToken 5000 HttpFailure
       \<lparr>authStateSubject =
          \<lparr>isAuthenticated = True,
           user = Some \<lparr>userId = 1, email = ''w@example.org'', roles = [], permissions = [],
                        isActive = True\<rparr>,
           token = Some ''t3'', refreshToken = Some ''r3'', AuthState.expiresAt = Some (Time 900000),
           loginTime = Some (Time 0), lastActivity = Some (Time 0)\<rparr>,
        refreshTokenTimer = Some 300000, activityCheckTimer = Some 60000,
        localStorage = \<lparr>authStateItem = Some Malformed, quotaExceeded = True\<rparr>\<rparr>))))
     = None"
  using refreshToken_failure_clears_session
    [of 5000 HttpFailure
       "\<lparr>authStateSubject =
          \<lparr>isAuthenticated = True,
           user = Some \<lparr>userId = 1, email = ''w@example.org'', roles = [], permissions = [],
                        isActive = True\<rparr>,
           token = Some ''t3'', refreshToken = Some ''r3'', AuthState.expiresAt = Some (Time 900000),
           loginTime = Some (Time 0), lastActivity = Some (Time 0)\<rparr>,
        refreshTokenTimer = Some 300000, activityCheckTimer = Some 60000,
        localStorage = \<lparr>authStateItem = Some Malformed, quotaExceeded = True\<rparr>\<rparr>"]
  by simp

subsection \<open>The invariant of the snapshot\<close>

lemma login_preserves:
  "sessionInvariant (authStateSubject svc) \<Longrightarrow> replyAsDeclared (Login now outcome)
     \<Longrightarrow> sessionInvariant (authStateSubject (snd (snd (login now outcome svc))))"
  by (cases outcome)
    (auto simp: login_def Let_def case_prod_beta sessionInvariant_def split: option.splits)

lemma refreshToken_preserves:
  "sessionInvariant (authStateSubject svc) \<Longrightarrow> replyAsDeclared (RefreshToken now outcome)
     \<Longrightarrow> sessionInvariant (authStateSubject (snd (snd (AuthService_refreshToken now outcome svc))))"
  by (cases outcome)
    (auto simp: AuthService_refreshToken_def Let_def case_prod_beta sessionInvariant_def
      split: option.splits)

lemma updateLastActivity_preserves:
  "sessionInvariant (authStateSubject svc)
     \<Longrightarrow> sessionInvariant (authStateSubject (updateLastActivity now svc))"
  by (simp add: updateLastActivity_def Let_def sessionInvariant_def)

lemma refreshTimerFires_preserves:
  assumes "sessionInvariant (authStateSubject svc)"
    and "replyAsDeclared (RefreshTimerFires now outcome logoutOutcome)"
  shows "sessionInvariant (authStateSubject (refreshTimerFires now outcome logoutOutcome svc))"
proof -
  have "replyAsDeclared (RefreshToken now outcome)"
  proof (cases outcome)
    case HttpFailure
    then show ?thesis by simp
  next
    case (HttpResponse reply)
    then show ?thesis using assms(2) by (cases reply) simp_all
  qed
  then have "sessionInvariant
      (authStateSubject (snd (snd (AuthService_refreshToken now outcome svc))))"
    using assms(1) by (intro refreshToken_preserves)
  then show ?thesis
    by (auto simp: refreshTimerFires_def split: prod.splits sum.splits)
qed

lemma activityCheck_preserves:
  "sessionInvariant (authStateSubject svc)
     \<Longrightarrow> sessionInvariant (authStateSubject (activityCheck now logoutOutcome svc))"
  by (simp add: activityCheck_def Let_def split: option.splits Date.splits)

lemma authStep_preserves:
  "sessionInvariant (authStateSubject svc) \<Longrightarrow> replyAsDeclared event
     \<Longrightarrow> sessionInvariant (authStateSubject (authStep event svc))"
  by (cases event)
    (simp_all add: login_preserves refreshToken_preserves updateLastActivity_preserves
      refreshTimerFires_preserves activityCheck_preserves)

lemma isValidStoredAuth_invariant:
  "isValidStoredAuth now authState \<Longrightarrow> sessionInvariant authState"
  by (auto simp: isValidStoredAuth_def sessionInvariant_def truthy_def split: option.splits)

lemma initializeAuthState_establishes:
  "sessionInvariant (authStateSubject svc)
     \<Longrightarrow> sessionInvariant (authStateSubject (snd (initializeAuthState now svc)))"
  by (simp add: initializeAuthState_def isValidStoredAuth_invariant case_prod_beta
      split: option.splits StoredText.splits)

lemma newAuthService_establishes:
  "sessionInvariant (authStateSubject (newAuthService now storage))"
  by (simp add: newAuthService_def setupActivityMonitoring_def initializeAuthState_establishes)

lemma authRun_preserves:
  "sessionInvariant (authStateSubject svc) \<Longrightarrow> \<forall>event \<in> set events. replyAsDeclared event
     \<Longrightarrow> sessionInvariant (authStateSubject (authRun events svc))"
  unfolding authRun_def
  by (induction events arbitrary: svc) (simp_all add: authStep_preserves)

text \<open>
  Claim C7, as amended. The snapshot that the constructor leaves, whatever the storage
  holds (a restored snapshot included), satisfies the invariant: an authenticated
  snapshot has a user, a token and an expiry date. Every operation of the service
  (\<open>login\<close>, \<open>logout\<close>, \<open>refreshToken\<close>, \<open>updateLastActivity\<close>, \<open>clearAuthState\<close>, the
  two timer callbacks) preserves the invariant, whether its remote call is rejected,
  answers without success or answers with success, provided that a reply reporting
  success carries the user and the token that its interface declares; so the invariant
  holds after every run of such operations.
\<close>

theorem sessionInvariant_maintained:
  "sessionInvariant (authStateSubject (newAuthService now storage))
   \<and> (sessionInvariant (authStateSubject svc) \<and> replyAsDeclared event
        \<longrightarrow> sessionInvariant (authStateSubject (authStep event svc)))
   \<and> ((\<forall>event \<in> set events. replyAsDeclared event)
        \<longrightarrow> sessionInvariant (authStateSubject (authRun events (newAuthService now storage))))"
  by (simp add: newAuthService_establishes authStep_preserves authRun_preserves)

text \<open>
  The theorem at an authenticated service and a successful refresh: the invariant holds
  before, the reply is as declared, the snapshot after is authenticated and has its
  three fields.
\<close>

theorem sessionInvariant_maintained_witness:
  "sessionInvariant
     \<lparr>isAuthenticated = True,
      user = Some \<lparr>userId = 1, email = ''w@example.org'', roles = [], permissions = [],
                   isActive = True\<rparr>,
      token = Some ''t3'', refreshToken = Some ''r3'',
      AuthState.expiresAt = Some (Time 900000),
      loginTime = Some (Time 0), lastActivity = Some (Time 0)\<rparr>
   \<and> replyAsDeclared (RefreshToken 5000 (HttpResponse (Some
           \<lparr>refresh_success = True, refresh_token = Some ''t4'',
            refresh_expiresAt = Time 1800000, refresh_sessionId = Some ''s1''\<rparr>)))
   \<and> authStateSubject (authStep
        (RefreshToken 5000 (HttpResponse (Some
           \<lparr>refresh_success = True, refresh_token = Some ''t4'',
            refresh_expiresAt = Time 1800000, refresh_sessionId = Some ''s1''\<rparr>)))
        \<lparr>authStateSubject =
           \<lparr>isAuthenticated = True,
            user = Some \<lparr>userId = 1, email = ''w@example.org'', roles = [], permissions = [],
                         isActive = True\<rparr>,
            token = Some ''t3'', refreshToken = Some ''r3'',
            AuthState.expiresAt = Some (Time 900000),
            loginTime = Some (Time 0), lastActivity = Some (Time 0)\<rparr>,
         refreshTokenTimer = Some 300000, activityCheckTimer = Some 60000,
         localStorage = \<lparr>authStateItem = None, quotaExceeded = False\<rparr>\<rparr>)
     = \<lparr>isAuthenticated = True,
        user = Some \<lparr>userId = 1, email = ''w@example.org'', roles = [], permissions = [],
                     isActive = True\<rparr>,
        token = Some ''t4'', refreshToken = Some ''r3'',
        AuthState.expiresAt = Some (Time 1800000),
        loginTime = Some (Time 0), lastActivity = Some (Time 5000)\<rparr>
   \<and> sessionInvariant (authStateSubject (authStep
        (RefreshToken 5000 (HttpResponse (Some
           \<lparr>refresh_success = True, refresh_token = Some ''t4'',
            refresh_expiresAt = Time 1800000, refresh_sessionId = Some ''s1''\<rparr>)))
        \<lparr>authStateSubject =
           \<lparr>isAuthenticated = True,
            user = Some \<lparr>userId = 1, email = ''w@example.org'', roles = [], permissions = [],
                         isActive = True\<rparr>,
            token = Some ''t3'', refreshToken = Some ''r3'',
            AuthState.expiresAt = Some (Time 900000),
            loginTime = Some (Time 0), lastActivity = Some (Time 0)\<rparr>,
         refreshTokenTimer = Some 300000, activityCheckTimer = Some 60000,
         localStorage = \<lparr>authStateItem = None, quotaExceeded = False\<rparr>\<rparr>))"
proof -
  let ?state = "\<lparr>isAuthenticated = True,
      user = Some \<lparr>userId = 1, email = ''w@example.org'', roles = [], permissions = [],
                   isActive = True\<rparr>,
      token = Some ''t3'', refreshToken = Some ''r3'',
      AuthState.expiresAt = Some (Time 900000),
      loginTime = Some (Time 0), lastActivity = Some (Time 0)\<rparr>"
  let ?svc = "\<lparr>authStateSubject = ?state,
         refreshTokenTimer = Some 300000, activityCheckTimer = Some 60000,
         localStorage = \<lparr>authStateItem = None, quotaExceeded = False\<rparr>\<rparr>"
  let ?event = "RefreshToken 5000 (HttpResponse (Some
           \<lparr>refresh_success = True, refresh_token = Some ''t4'',
            refresh_expiresAt = Time 1800000, refresh_sessionId = Some ''s1''\<rparr>))"
  have before: "sessionInvariant ?state"
    by (simp add: sessionInvariant_def)
  have declared: "replyAsDeclared ?event"
    by simp
  have after: "authStateSubject (authStep ?event ?svc)
     = \<lparr>isAuthenticated = True,
        user = Some \<lparr>userId = 1, email = ''w@example.org'', roles = [], permissions = [],
                     isActive = True\<rparr>,
        token = Some ''t4'', refreshToken = Some ''r3'',
        AuthState.expiresAt = Some (Time 1800000),
        loginTime = Some (Time 0), lastActivity = Some (Time 5000)\<rparr>"
    by (simp add: AuthService_refreshToken_def truthy_def Let_def case_prod_beta)
  have "sessionInvariant (authStateSubject ?svc) \<and> replyAsDeclared ?event
        \<longrightarrow> sessionInvariant (authStateSubject (authStep ?event ?svc))"
    using sessionInvariant_maintained [where svc = ?svc and event = ?event] by blast
  then have kept: "sessionInvariant (authStateSubject (authStep ?event ?svc))"
    using before declared by simp
  show ?thesis
    using before declared after kept by (intro conjI)
qed

text \<open>
  Claim C7 as stated fails. A login reply that reports success and carries no user makes
  \<^const>\<open>login\<close> publish an authenticated snapshot without a user and then fail: the
  operation is rejected, and the state it leaves breaks the invariant. A refresh reply
  that reports success and carries no token leaves an authenticated snapshot without a
  token.
\<close>

theorem login_without_user_breaks_invariant:
  "sessionInvariant (authStateSubject (newAuthService 0
      \<lparr>authStateItem = None, quotaExceeded = False\<rparr>))
   \<and> isl (fst (login 1000
        (HttpResponse (Some
           \<lparr>login_success = True, login_message = None, login_user = None,
            login_token = Some ''t5'', login_refreshToken = Some ''r5'',
            login_expiresAt = Time 7200000, login_sessionId = Some ''s5''\<rparr>))
        (newAuthService 0 \<lparr>authStateItem = None, quotaExceeded = False\<rparr>)))
   \<and> isAuthenticated (authStateSubject (authStep
        (Login 1000 (HttpResponse (Some
           \<lparr>login_success = True, login_message = None, login_user = None,
            login_token = Some ''t5'', login_refreshToken = Some ''r5'',
            login_expiresAt = Time 7200000, login_sessionId = Some ''s5''\<rparr>)))
        (newAuthService 0 \<lparr>authStateItem = None, quotaExceeded = False\<rparr>)))
   \<and> user (authStateSubject (authStep
        (Login 1000 (HttpResponse (Some
           \<lparr>login_success = True, login_message = None, login_user = None,
            login_token = Some ''t5'', login_refreshToken = Some ''r5'',
            login_expiresAt = Time 7200000, login_sessionId = Some ''s5''\<rparr>)))
        (newAuthService 0 \<lparr>authStateItem = None, quotaExceeded = False\<rparr>)))
       = None
   \<and> \<not> sessionInvariant (authStateSubject (authStep
        (Login 1000 (HttpResponse (Some
           \<lparr>login_success = True, login_message = None, login_user = None,
            login_token = Some ''t5'', login_refreshToken = Some ''r5'',
            login_expiresAt = Time 7200000, login_sessionId = Some ''s5''\<rparr>)))
        (newAuthService 0 \<lparr>authStateItem = None, quotaExceeded = False\<rparr>)))
   \<and> \<not> sessionInvariant (authStateSubject (authStep
        (RefreshToken 2000 (HttpResponse (Some
           \<lparr>refresh_success = True, refresh_token = None,
            refresh_expiresAt = Time 9000000, refresh_sessionId = Some ''s6''\<rparr>)))
        \<lparr>authStateSubject =
           \<lparr>isAuthenticated = True,
            user = Some \<lparr>userId = 1, email = ''w@example.org'', roles = [], permissions = [],
                         isActive = True\<rparr>,
            token = Some ''t3'', refreshToken = Some ''r3'',
            AuthState.expiresAt = Some (Time 900000),
            loginTime = Some (Time 0), lastActivity = Some (Time 0)\<rparr>,
         refreshTokenTimer = Some 300000, activityCheckTimer = Some 60000,
         localStorage = \<lparr>authStateItem = None, quotaExceeded = False\<rparr>\<rparr>))"
  by (simp add: newAuthService_def setupActivityMonitoring_def initializeAuthState_def
      getItem_def login_def AuthService_refreshToken_def truthy_def Let_def case_prod_beta
      sessionInvariant_def)

section \<open>Properties of the cache\<close>

subsection \<open>The store as a Map\<close>

lemma Map_get_Map_set:
  "Map_get k' (Map_set k v m) = (if k' = k then Some v else Map_get k' m)"
  by (induction m) (auto simp: Map_get_def)

lemma Map_get_filter_keys:
  "Map_get k (filter (\<lambda>e. fst e \<notin> K) m) = (if k \<in> K then None else Map_get k m)"
  by (induction m) (auto simp: Map_get_def)

lemma Map_get_Map_delete:
  "Map_get k' (Map_delete k m) = (if k' = k then None else Map_get k' m)"
  using Map_get_filter_keys [of k' "{k}" m] by (simp add: Map_delete_def)

lemma Map_get_None_iff: "Map_get k m = None \<longleftrightarrow> k \<notin> set (Map_keys m)"
  by (simp add: Map_get_def Map_keys_def map_of_eq_None_iff)

lemma Map_get_Some_isMap: "isMap m \<Longrightarrow> e \<in> set m \<Longrightarrow> Map_get (fst e) m = Some (snd e)"
  by (simp add: Map_get_def isMap_def Map_keys_def)

lemma Map_get_Some_key: "Map_get k m = Some v \<Longrightarrow> k \<in> set (Map_keys m)"
  using Map_get_None_iff [of k m] by auto

lemma Map_get_Some_mem: "Map_get k m = Some v \<Longrightarrow> (k, v) \<in> set m"
  by (simp add: Map_get_def map_of_SomeD)

lemma fold_Map_delete_entries:
  "fold (\<lambda>e c. Map_delete (fst e) c) rs m = filter (\<lambda>e. fst e \<notin> fst ` set rs) m"
proof (induction rs arbitrary: m)
  case Nil
  show ?case by simp
next
  case (Cons r rs)
  have "fold (\<lambda>e c. Map_delete (fst e) c) (r # rs) m
          = filter (\<lambda>e. fst e \<notin> fst ` set rs) (Map_delete (fst r) m)"
    by (simp add: Cons.IH)
  also have "\<dots> = filter (\<lambda>e. fst e \<notin> fst ` set (r # rs)) m"
    unfolding Map_delete_def by (auto intro: filter_cong)
  finally show ?case .
qed

lemma fold_Map_delete_keys:
  "fold Map_delete ks m = filter (\<lambda>e. fst e \<notin> set ks) m"
proof (induction ks arbitrary: m)
  case Nil
  show ?case by simp
next
  case (Cons k ks)
  have "fold Map_delete (k # ks) m = filter (\<lambda>e. fst e \<notin> set ks) (Map_delete k m)"
    by (simp add: Cons.IH)
  also have "\<dots> = filter (\<lambda>e. fst e \<notin> set (k # ks)) m"
    unfolding Map_delete_def by (auto intro: filter_cong)
  finally show ?case .
qed

lemma Map_keys_Map_set:
  "Map_keys (Map_set k v m) = (if k \<in> set (Map_keys m) then Map_keys m else Map_keys m @ [k])"
  by (induction m) (auto simp: Map_keys_def)

lemma length_Map_set:
  "length (Map_set k v m) = (if k \<in> set (Map_keys m) then length m else Suc (length m))"
  using arg_cong [OF Map_keys_Map_set [of k v m], of length] by (simp add: Map_keys_def)

lemma Map_set_new: "k \<notin> set (Map_keys m) \<Longrightarrow> Map_set k v m = m @ [(k, v)]"
  by (induction m) (auto simp: Map_keys_def)

lemma isMap_Map_set: "isMap m \<Longrightarrow> isMap (Map_set k v m)"
  by (simp add: isMap_def Map_keys_Map_set)

lemma isMap_filter: "isMap m \<Longrightarrow> isMap (filter P m)"
  by (simp add: isMap_def Map_keys_def distinct_map_filter)

lemma length_filter_take_le: "length (filter P (take n xs)) \<le> length (filter P xs)"
proof -
  have "length (filter P xs) = length (filter P (take n xs @ drop n xs))" by simp
  also have "\<dots> = length (filter P (take n xs)) + length (filter P (drop n xs))"
    by (simp only: filter_append length_append)
  finally show ?thesis by simp
qed

lemma length_filter_sort_key:
  "length (filter P (sort_key f xs)) = length (filter P xs)"
  by (simp add: filter_sort)

lemma enforceMaxSize_filter:
  "enforceMaxSize config cache =
     (if length cache \<le> maxSize config then cache
      else filter (\<lambda>e. fst e \<notin> fst ` set (take (length cache - maxSize config)
                      (sort_key (\<lambda>e. lastAccessed (snd e)) cache))) cache)"
  by (simp add: enforceMaxSize_def Let_def fold_Map_delete_entries)

lemma length_enforceMaxSize: "length (enforceMaxSize config cache) \<le> maxSize config"
proof (cases "length cache \<le> maxSize config")
  case True
  then show ?thesis by (simp add: enforceMaxSize_def)
next
  case False
  define d where "d = length cache - maxSize config"
  define rs where "rs = take d (sort_key (\<lambda>e. lastAccessed (snd e)) cache)"
  define Q where "Q = (\<lambda>e::string \<times> 'a CacheItem. fst e \<in> fst ` set rs)"
  have len_rs: "length rs = d"
    using False by (simp add: rs_def d_def)
  have "filter Q rs = rs"
    by (simp add: Q_def)
  then have "d = length (filter Q rs)"
    using len_rs by simp
  also have "\<dots> \<le> length (filter Q (sort_key (\<lambda>e. lastAccessed (snd e)) cache))"
    unfolding rs_def by (rule length_filter_take_le)
  also have "\<dots> = length (filter Q cache)"
    by (rule length_filter_sort_key)
  finally have removed: "d \<le> length (filter Q cache)" .
  have "length (filter (\<lambda>e. \<not> Q e) cache) + length (filter Q cache) = length cache"
    using sum_length_filter_compl [of Q cache] by simp
  then have "length (filter (\<lambda>e. \<not> Q e) cache) \<le> length cache - d"
    using removed by linarith
  moreover have "enforceMaxSize config cache = filter (\<lambda>e. \<not> Q e) cache"
    using False by (simp add: enforceMaxSize_filter Q_def rs_def d_def)
  ultimately show ?thesis
    using False by (simp add: d_def)
qed

lemma enforceMaxSize_within: "length cache \<le> maxSize config \<Longrightarrow> enforceMaxSize config cache = cache"
  by (simp add: enforceMaxSize_def)

lemma length_Map_delete: "length (Map_delete k m) \<le> length m"
  by (simp add: Map_delete_def)

lemma length_cleanup: "length (cleanup now cache) \<le> length cache"
  by (simp add: cleanup_def fold_Map_delete_keys)

lemma length_cacheStep:
  "length cache \<le> maxSize config \<Longrightarrow> length (cacheStep config op cache) \<le> maxSize config"
proof (cases op)
  case (Pair now action)
  assume bound: "length cache \<le> maxSize config"
  show ?thesis
  proof (cases action)
    case (Set k d ttl)
    then show ?thesis using Pair by (simp add: cache_set_def Let_def length_enforceMaxSize)
  next
    case (Get k)
    have "length (snd (cache_get now k cache)) \<le> length cache"
      using length_Map_delete [of k cache]
      by (auto simp: cache_get_def length_Map_set split: option.splits dest: Map_get_Some_key)
    then show ?thesis using Get Pair bound by simp
  next
    case (Has k)
    have "length (snd (cache_has now k cache)) \<le> length cache"
      using length_Map_delete [of k cache]
      by (auto simp: cache_has_def split: option.splits)
    then show ?thesis using Has Pair bound by simp
  next
    case (Delete k)
    then show ?thesis
      using Pair bound length_Map_delete [of k cache] by (simp add: cache_delete_def)
  next
    case Clear
    then show ?thesis using Pair by (simp add: cache_clear_def)
  next
    case Cleanup
    then show ?thesis using Pair bound length_cleanup [of now cache] by simp
  qed
qed

lemma length_cacheRun:
  "length cache \<le> maxSize config \<Longrightarrow> length (cacheRun config ops cache) \<le> maxSize config"
  unfolding cacheRun_def
  by (induction ops arbitrary: cache) (simp_all add: length_cacheStep)

text \<open>
  What the code does keep: \<^verbatim>\<open>set\<close> leaves at most \<open>maxSize\<close> entries whatever the
  store held before, and no operation other than \<^verbatim>\<open>set\<close> adds an entry, so a run of
  operations that starts within the bound ends within it.
\<close>

lemma size_within_maxSize:
  assumes "length cache \<le> maxSize config"
  shows "length (cacheRun config ops cache) \<le> maxSize config
         \<and> fst (cache_size now (cacheRun config ops cache)) \<le> maxSize config
         \<and> length (snd (cache_size now (cacheRun config ops cache))) \<le> maxSize config
         \<and> length (cache_set config now k d ttl anyCache) \<le> maxSize config"
proof -
  have run: "length (cacheRun config ops cache) \<le> maxSize config"
    using assms by (rule length_cacheRun)
  moreover have "length (cleanup now (cacheRun config ops cache)) \<le> maxSize config"
    using run length_cleanup [of now "cacheRun config ops cache"] by linarith
  moreover have "length (cache_set config now k d ttl anyCache) \<le> maxSize config"
    by (simp add: cache_set_def Let_def length_enforceMaxSize)
  ultimately show ?thesis by (simp add: cache_size_def Let_def)
qed

subsection \<open>Stores that a run can reach\<close>

text \<open>
  The theorems below assume that the store is a \<^verbatim>\<open>Map\<close> and, where the clock matters,
  that no entry was accessed after \<open>now\<close>. The constructor and every run of operations
  keep the keys distinct, and a run whose operations all read the clock at \<open>now\<close> or
  before leaves no entry accessed after \<open>now\<close>, if it started from such a store.
\<close>

lemma set_Map_set: "set (Map_set k v m) \<subseteq> insert (k, v) (set m)"
  by (induction m) auto

lemma set_Map_delete: "set (Map_delete k m) \<subseteq> set m"
  by (auto simp: Map_delete_def)

lemma set_enforceMaxSize: "set (enforceMaxSize config m) \<subseteq> set m"
  by (auto simp: enforceMaxSize_filter)

lemma set_cleanup: "set (cleanup now m) \<subseteq> set m"
  by (auto simp: cleanup_def fold_Map_delete_keys)

lemma set_cacheStep:
  "set (cacheStep config op cache)
     \<subseteq> set cache \<union> {e. lastAccessed (snd e) = fst op}"
proof (cases op)
  case (Pair now action)
  show ?thesis
  proof (cases action)
    case (Set k d ttl)
    show ?thesis
      using set_enforceMaxSize set_Map_set
      unfolding Pair Set cacheStep.simps cache_set_def Let_def
      by fastforce
  next
    case (Get k)
    show ?thesis
    proof (cases "Map_get k cache")
      case None
      then show ?thesis by (simp add: Pair Get cache_get_def)
    next
      case (Some item)
      let ?item' = "item\<lparr>accessCount := accessCount item + 1, lastAccessed := now\<rparr>"
      have "set (Map_set k ?item' cache) \<subseteq> insert (k, ?item') (set cache)"
        by (rule set_Map_set)
      moreover have "lastAccessed (snd (k, ?item')) = now" by simp
      ultimately have "set (Map_set k ?item' cache)
          \<subseteq> set cache \<union> {e. lastAccessed (snd e) = now}"
        by blast
      then show ?thesis
        using Some set_Map_delete [of k cache] by (auto simp: Pair Get cache_get_def)
    qed
  next
    case (Has k)
    show ?thesis
      using set_Map_delete [of k cache]
      unfolding Pair Has cacheStep.simps cache_has_def
      by (auto split: option.splits)
  next
    case (Delete k)
    show ?thesis
      using set_Map_delete [of k cache]
      unfolding Pair Delete cacheStep.simps cache_delete_def by auto
  next
    case Clear
    show ?thesis unfolding Pair Clear cacheStep.simps cache_clear_def by simp
  next
    case Cleanup
    show ?thesis using set_cleanup [of now cache] unfolding Pair Cleanup cacheStep.simps by auto
  qed
qed

lemma lastAccessed_cacheRun:
  assumes "\<forall>e \<in> set cache. lastAccessed (snd e) \<le> now"
    and "\<forall>op \<in> set ops. fst op \<le> now"
  shows "\<forall>e \<in> set (cacheRun config ops cache). lastAccessed (snd e) \<le> now"
  using assms unfolding cacheRun_def
proof (induction ops arbitrary: cache)
  case Nil
  then show ?case by simp
next
  case (Cons op ops)
  have "\<forall>e \<in> set (cacheStep config op cache). lastAccessed (snd e) \<le> now"
    using set_cacheStep [of config op cache] Cons.prems by fastforce
  moreover have "\<forall>op \<in> set ops. fst op \<le> now"
    using Cons.prems(2) by simp
  ultimately show ?case
    using Cons.IH [of "cacheStep config op cache"] by simp
qed

lemma isMap_Map_delete: "isMap m \<Longrightarrow> isMap (Map_delete k m)"
  unfolding Map_delete_def by (rule isMap_filter)

lemma isMap_enforceMaxSize: "isMap m \<Longrightarrow> isMap (enforceMaxSize config m)"
  by (simp add: enforceMaxSize_filter isMap_filter)

lemma isMap_cleanup: "isMap m \<Longrightarrow> isMap (cleanup now m)"
  by (simp add: cleanup_def fold_Map_delete_keys isMap_filter)

lemma isMap_cacheStep: "isMap cache \<Longrightarrow> isMap (cacheStep config op cache)"
proof (cases op)
  case (Pair now action)
  assume map: "isMap cache"
  show ?thesis
  proof (cases action)
    case (Set k d ttl)
    show ?thesis
      unfolding Pair Set cacheStep.simps cache_set_def Let_def
      using map by (intro isMap_enforceMaxSize isMap_Map_set)
  next
    case (Get k)
    show ?thesis
      unfolding Pair Get cacheStep.simps cache_get_def
      using map by (simp add: isMap_Map_delete isMap_Map_set split: option.splits)
  next
    case (Has k)
    show ?thesis
      unfolding Pair Has cacheStep.simps cache_has_def
      using map by (simp add: isMap_Map_delete split: option.splits)
  next
    case (Delete k)
    show ?thesis
      unfolding Pair Delete cacheStep.simps cache_delete_def
      using map by (simp add: isMap_Map_delete)
  next
    case Clear
    show ?thesis
      unfolding Pair Clear cacheStep.simps cache_clear_def by (simp add: isMap_def Map_keys_def)
  next
    case Cleanup
    show ?thesis
      unfolding Pair Cleanup cacheStep.simps using map by (rule isMap_cleanup)
  qed
qed

lemma isMap_cacheRun: "isMap cache \<Longrightarrow> isMap (cacheRun config ops cache)"
  unfolding cacheRun_def
  by (induction ops arbitrary: cache) (simp_all add: isMap_cacheStep)

subsection \<open>The store that the constructor builds\<close>

lemma isMap_loadEntries: "isMap cache \<Longrightarrow> isMap (loadEntries now entries cache)"
  by (induction now entries cache rule: loadEntries.induct) (simp_all add: isMap_Map_set)

lemma isMap_newCacheService: "isMap (newCacheService config now stored)"
proof -
  have empty: "isMap ([] :: 'a Cache)"
    by (simp add: isMap_def Map_keys_def)
  then have "isMap (loadEntries now entries ([] :: 'a Cache))" for entries
    by (rule isMap_loadEntries)
  then show ?thesis
    using empty
    by (simp add: newCacheService_def loadFromStorage_def split: option.splits StoredCache.splits)
qed

lemma loadEntries_appends:
  assumes "\<forall>e \<in> set entries. nowBefore now (expiresAt (snd e))"
    and "distinct (map fst entries)"
    and "set (map fst entries) \<inter> set (Map_keys cache) = {}"
  shows "loadEntries now (map Some entries) cache = cache @ entries"
  using assms
proof (induction entries arbitrary: cache)
  case Nil
  then show ?case by simp
next
  case (Cons e entries)
  obtain k item where e: "e = (k, item)" by (cases e)
  have live: "nowBefore now (expiresAt item)"
    using Cons.prems(1) e by simp
  have new: "k \<notin> set (Map_keys cache)"
    using Cons.prems(3) e by auto
  have set_eq: "Map_set k item cache = cache @ [(k, item)]"
    using new by (rule Map_set_new)
  have "set (map fst entries) \<inter> set (Map_keys (cache @ [(k, item)])) = {}"
    using Cons.prems(2,3) e by (auto simp: Map_keys_def)
  then have "loadEntries now (map Some entries) (cache @ [(k, item)])
      = (cache @ [(k, item)]) @ entries"
    using Cons.prems(1,2) by (intro Cons.IH) simp_all
  then show ?case
    using live set_eq e by simp
qed

lemma cleanup_nothing_expired:
  assumes "\<forall>e \<in> set cache. \<not> nowAfter now (expiresAt (snd e))"
  shows "cleanup now cache = cache"
proof -
  have "filter (\<lambda>e. nowAfter now (expiresAt (snd e))) cache = []"
    using assms by (simp add: filter_empty_conv)
  then show ?thesis by (simp add: cleanup_def)
qed

text \<open>
  Claim C4 fails on the code, by an omission of the code. The store is bounded by
  \<^verbatim>\<open>enforceMaxSize\<close>, which only \<^verbatim>\<open>set\<close> calls; the constructor loads every stored
  entry that has not expired and does not call it. With the configuration of the class
  (\<open>maxSize\<close> 100) and 101 unexpired entries in the storage, the new service holds 101
  entries; \<^verbatim>\<open>get\<close> of one of them returns its value and \<^verbatim>\<open>size()\<close> afterwards is 101.
\<close>

theorem stored_entries_exceed_maxSize:
  "let stored = map (\<lambda>i. Some (replicate (Suc i) CHR ''k'',
                      \<lparr>key = replicate (Suc i) CHR ''k'', data = i, timestamp = 0,
                       expiresAt = Time 300000, accessCount = 0, lastAccessed = 0\<rparr>))
                  [0..<101];
       cache = newCacheService classConfig 1000 (Some (ParsedCache stored))
   in maxSize classConfig = 100
      \<and> length cache = 101
      \<and> fst (cache_get 2000 ''k'' cache) = Some 0
      \<and> fst (cache_size 3000 (snd (cache_get 2000 ''k'' cache))) = 101"
proof -
  define entry :: "nat \<Rightarrow> string \<times> nat CacheItem" where
    "entry = (\<lambda>i. (replicate (Suc i) CHR ''k'',
                   \<lparr>key = replicate (Suc i) CHR ''k'', data = i, timestamp = 0,
                    expiresAt = Time 300000, accessCount = 0, lastAccessed = 0\<rparr>))"
  define entries where "entries = map entry [0..<101]"
  have stored: "map (\<lambda>i. Some (replicate (Suc i) CHR ''k'',
                      \<lparr>key = replicate (Suc i) CHR ''k'', data = i, timestamp = 0,
                       expiresAt = Time 300000, accessCount = 0, lastAccessed = 0\<rparr>))
                  [0..<101] = map Some entries"
    by (simp add: entries_def entry_def)
  have expiry: "\<forall>e \<in> set entries. expiresAt (snd e) = Time 300000"
    by (auto simp: entries_def entry_def)
  have live: "\<forall>e \<in> set entries. nowBefore 1000 (expiresAt (snd e))"
    using expiry by (simp add: nowBefore_def)
  have "inj_on (\<lambda>i. fst (entry i)) (set [0..<101])"
    by (simp add: inj_on_def entry_def)
  then have keys: "distinct (map fst entries)"
    by (simp add: entries_def distinct_map comp_def)
  have built: "newCacheService classConfig 1000 (Some (ParsedCache (map Some entries))) = entries"
    using loadEntries_appends [OF live keys, of "[]"]
    by (simp add: newCacheService_def loadFromStorage_def classConfig_def Map_keys_def)
  have len: "length entries = 101"
    by (simp add: entries_def)
  have first: "entries = entry 0 # map entry [1..<101]"
    by (simp add: entries_def upt_conv_Cons)
  have found: "Map_get ''k'' entries = Some (snd (entry 0))"
    by (simp add: first Map_get_def) (simp add: entry_def)
  have fresh: "\<not> isExpired 2000 (snd (entry 0))"
    by (simp add: isExpired_def nowAfter_def entry_def)
  let ?touched = "Map_set ''k''
      ((snd (entry 0))\<lparr>accessCount := accessCount (snd (entry 0)) + 1, lastAccessed := 2000\<rparr>)
      entries"
  have got: "cache_get 2000 ''k'' entries = (Some 0, ?touched)"
    using found fresh by (simp add: cache_get_def) (simp add: entry_def)
  have "''k'' \<in> set (Map_keys entries)"
    using found by (rule Map_get_Some_key)
  then have len': "length ?touched = 101"
    using len by (simp add: length_Map_set)
  have "\<forall>e \<in> set ?touched. expiresAt (snd e) = Time 300000"
    using expiry set_Map_set [of "''k''" _ entries] by (fastforce simp: entry_def)
  then have "\<forall>e \<in> set ?touched. \<not> nowAfter 3000 (expiresAt (snd e))"
    by (simp add: nowAfter_def)
  then have "cleanup 3000 ?touched = ?touched"
    by (rule cleanup_nothing_expired)
  then have counted: "fst (cache_size 3000 ?touched) = 101"
    using len' by (simp add: cache_size_def)
  show ?thesis
    unfolding Let_def stored built
    using len got counted by (simp add: classConfig_def)
qed

subsection \<open>Expiry\<close>

lemma nowAfter_iff: "nowAfter now d \<longleftrightarrow> (\<exists>x. d = Time x \<and> now > x)"
  by (cases d) (simp_all add: nowAfter_def)

lemma nowAfter_later: "nowAfter t0 d \<Longrightarrow> t0 \<le> t \<Longrightarrow> nowAfter t d"
  by (cases d) (simp_all add: nowAfter_def)

lemma Map_get_enforceMaxSize:
  "Map_get k (enforceMaxSize config m) = Some item \<Longrightarrow> Map_get k m = Some item"
  by (simp add: enforceMaxSize_filter Map_get_filter_keys split: if_splits)

lemma Map_get_cleanup:
  "Map_get k (cleanup now m) = Some item \<Longrightarrow> Map_get k m = Some item"
  by (simp add: cleanup_def fold_Map_delete_keys Map_get_filter_keys split: if_splits)

lemma cacheStep_keeps_stale:
  assumes stale: "\<forall>item. Map_get k cache = Some item \<longrightarrow> nowAfter t0 (expiresAt item)"
    and later: "t0 \<le> fst op"
    and other: "\<forall>d ttl. snd op \<noteq> Set k d ttl"
  shows "\<forall>item. Map_get k (cacheStep config op cache) = Some item
           \<longrightarrow> nowAfter t0 (expiresAt item)"
proof (cases op)
  case (Pair now action)
  have expired: "isExpired now item" if "Map_get k cache = Some item" for item
    using that stale later Pair nowAfter_later [of t0 "expiresAt item" now]
    by (simp add: isExpired_def)
  show ?thesis
  proof (cases action)
    case (Set k' d ttl)
    with other Pair have "k' \<noteq> k" by auto
    then show ?thesis
      using stale Pair Set
      by (auto simp: cache_set_def Let_def Map_get_Map_set dest!: Map_get_enforceMaxSize)
  next
    case (Get k')
    show ?thesis
      using stale expired Pair Get
      by (auto simp: cache_get_def Map_get_Map_set Map_get_Map_delete
          split: option.splits if_splits)
  next
    case (Has k')
    show ?thesis
      using stale Pair Has
      by (auto simp: cache_has_def Map_get_Map_delete split: option.splits if_splits)
  next
    case (Delete k')
    show ?thesis
      using stale Pair Delete
      by (auto simp: cache_delete_def Map_get_Map_delete split: if_splits)
  next
    case Clear
    show ?thesis using Pair Clear by (simp add: cache_clear_def Map_get_def)
  next
    case Cleanup
    show ?thesis using stale Pair Cleanup by (auto dest!: Map_get_cleanup)
  qed
qed

lemma cacheRun_keeps_stale:
  assumes "\<forall>item. Map_get k cache = Some item \<longrightarrow> nowAfter t0 (expiresAt item)"
    and "\<forall>op \<in> set ops. t0 \<le> fst op \<and> (\<forall>d ttl. snd op \<noteq> Set k d ttl)"
  shows "\<forall>item. Map_get k (cacheRun config ops cache) = Some item
           \<longrightarrow> nowAfter t0 (expiresAt item)"
  using assms unfolding cacheRun_def
proof (induction ops arbitrary: cache)
  case Nil
  then show ?case by simp
next
  case (Cons op ops)
  have later: "t0 \<le> fst op" and other: "\<forall>d ttl. snd op \<noteq> Set k d ttl"
    using Cons.prems(2) by simp_all
  have step: "\<forall>item. Map_get k (cacheStep config op cache) = Some item
                \<longrightarrow> nowAfter t0 (expiresAt item)"
    using Cons.prems(1) later other by (rule cacheStep_keeps_stale)
  have rest: "\<forall>op \<in> set ops. t0 \<le> fst op \<and> (\<forall>d ttl. snd op \<noteq> Set k d ttl)"
    using Cons.prems(2) by simp
  show ?case
    using Cons.IH [OF step rest] by simp
qed

lemma cache_get_stale:
  assumes "\<forall>item. Map_get k cache = Some item \<longrightarrow> nowAfter t (expiresAt item)"
  shows "fst (cache_get t k cache) = None"
    and "k \<notin> set (Map_keys (snd (cache_get t k cache)))"
  using assms
  by (auto simp: cache_get_def isExpired_def Map_get_None_iff [symmetric] Map_get_Map_delete
      split: option.splits)

lemma cache_set_stale:
  assumes "ttl < 0" and "- 8640000000000000 \<le> now + ttl" and "now \<le> 8640000000000000"
  shows "\<forall>item. Map_get k (cache_set config now k d (Some ttl) cache) = Some item
           \<longrightarrow> nowAfter now (expiresAt item)"
  using assms
  by (auto simp: cache_set_def Let_def Map_get_Map_set newDate_def nowAfter_def
      dest!: Map_get_enforceMaxSize)

lemma cache_set_room:
  assumes "length cache < maxSize config"
  shows "cache_set config now k d ttl cache =
           Map_set k \<lparr>key = k, data = d, timestamp = now,
                      expiresAt = newDate (now + (case ttl of None \<Rightarrow> defaultTtl config
                                         | Some t \<Rightarrow> if t = 0 then defaultTtl config else t)),
                      accessCount = 0, lastAccessed = now\<rparr> cache"
  using assms by (simp add: cache_set_def Let_def enforceMaxSize_def length_Map_set)

text \<open>
  Claim C2, as amended. Let \<open>ttl\<close> be a negative whole number of milliseconds for which
  \<open>now + ttl\<close> is still a date (not below -8.64e15). After \<^verbatim>\<open>set(key, value, ttl)\<close>
  at time \<open>now\<close>, and after any further operations at times from \<open>now\<close> on that do not
  set \<open>key\<close> again, a \<^verbatim>\<open>get(key)\<close> at any time from \<open>now\<close> on returns nothing and
  leaves the store without the key. The entry is inserted all the same (when the store has
  room): it is there right after the \<^verbatim>\<open>set\<close>, with the expiry date \<open>now + ttl\<close>.
\<close>

theorem negative_ttl_never_returned:
  assumes "ttl < 0"
    and "- 8640000000000000 \<le> now + ttl" and "now \<le> 8640000000000000"
    and "\<forall>op \<in> set ops. now \<le> fst op \<and> (\<forall>d' ttl'. snd op \<noteq> Set k d' ttl')"
    and "now \<le> t"
  shows "fst (cache_get t k (cacheRun config ops (cache_set config now k d (Some ttl) cache))) = None
     \<and> k \<notin> set (Map_keys (snd (cache_get t k
               (cacheRun config ops (cache_set config now k d (Some ttl) cache)))))
     \<and> (length cache < maxSize config \<longrightarrow>
          (\<exists>item. Map_get k (cache_set config now k d (Some ttl) cache) = Some item
             \<and> data item = d \<and> expiresAt item = Time (now + ttl)))"
proof -
  have "\<forall>item. Map_get k (cacheRun config ops (cache_set config now k d (Some ttl) cache)) = Some item
          \<longrightarrow> nowAfter now (expiresAt item)"
    using cache_set_stale [OF assms(1,2,3)] assms(4) by (rule cacheRun_keeps_stale)
  then have stale:
    "\<forall>item. Map_get k (cacheRun config ops (cache_set config now k d (Some ttl) cache)) = Some item
          \<longrightarrow> nowAfter t (expiresAt item)"
    using assms(5) nowAfter_later by blast
  have inserted: "length cache < maxSize config \<longrightarrow>
          (\<exists>item. Map_get k (cache_set config now k d (Some ttl) cache) = Some item
             \<and> data item = d \<and> expiresAt item = Time (now + ttl))"
    using assms(1,2,3) by (simp add: cache_set_room Map_get_Map_set newDate_def)
  show ?thesis
    using cache_get_stale [OF stale] inserted by simp
qed

text \<open>The theorem at \<open>ttl = -1\<close>, with a \<^verbatim>\<open>set\<close> of another key and a \<^verbatim>\<open>get\<close> in between.\<close>

theorem negative_ttl_never_returned_witness:
  "fst (cache_get 2 ''k''
     (cacheRun classConfig [(1, Set ''j'' 7 None), (1, Get ''k'')]
        (cache_set classConfig 0 ''k'' (42::int) (Some (- 1)) [])))
   = None
   \<and> ''k'' \<notin> set (Map_keys (snd (cache_get 2 ''k''
     (cacheRun classConfig [(1, Set ''j'' 7 None), (1, Get ''k'')]
        (cache_set classConfig 0 ''k'' (42::int) (Some (- 1)) [])))))
   \<and> (\<exists>item. Map_get ''k'' (cache_set classConfig 0 ''k'' (42::int) (Some (- 1)) []) = Some item
        \<and> data item = 42 \<and> expiresAt item = Time (- 1))"
  using negative_ttl_never_returned
    [where ttl = "- 1" and ops = "[(1, Set ''j'' 7 None), (1, Get ''k'')]" and now = 0
       and k = "''k''" and t = 2 and cache = "[]" and d = "42::int"
       and config = classConfig]
  by (simp add: classConfig_def)

text \<open>
  Claim C2 as stated fails twice. A \<open>ttl\<close> of 0 selects the default time to live: the
  value is returned one second later. And a \<open>ttl\<close> so negative that \<open>now + ttl\<close> is no
  date gives an entry whose expiry is an Invalid Date, which no clock value is later
  than: the value is returned whenever it is asked for.
\<close>

theorem zero_ttl_is_returned:
  "fst (cache_get 1000 ''k'' (cache_set classConfig 0 ''k'' (42::int) (Some 0) [])) = Some 42
   \<and> fst (cache_get 1700000001000 ''k''
       (cache_set classConfig 1700000000000 ''k'' (42::int) (Some (- 9000000000000000)) []))
     = Some 42"
  by (simp add: classConfig_def cache_set_def cache_get_def enforceMaxSize_def isExpired_def
      newDate_def nowAfter_def Map_get_def Let_def)

lemma isMap_same_key:
  "isMap m \<Longrightarrow> e \<in> set m \<Longrightarrow> e' \<in> set m \<Longrightarrow> fst e = fst e' \<Longrightarrow> e = e'"
  unfolding isMap_def Map_keys_def
  by (metis eq_key_imp_eq_value prod.collapse)

lemma cleanup_filter:
  assumes "isMap cache"
  shows "cleanup now cache = filter (\<lambda>e. \<not> nowAfter now (expiresAt (snd e))) cache"
proof -
  have "filter (\<lambda>e. fst e \<notin> set (map fst (filter (\<lambda>e. nowAfter now (expiresAt (snd e))) cache)))
          cache
          = filter (\<lambda>e. \<not> nowAfter now (expiresAt (snd e))) cache"
  proof (rule filter_cong [OF refl])
    fix e assume mem: "e \<in> set cache"
    show "(fst e \<notin> set (map fst (filter (\<lambda>e. nowAfter now (expiresAt (snd e))) cache)))
            = (\<not> nowAfter now (expiresAt (snd e)))"
      using isMap_same_key [OF assms _ mem] mem by force
  qed
  then show ?thesis by (simp add: cleanup_def fold_Map_delete_keys)
qed

lemma Map_keys_Map_delete: "k \<notin> set (Map_keys (Map_delete k m))"
  by (auto simp: Map_keys_def Map_delete_def)

lemma Map_keys_cleanup: "set (Map_keys (cleanup now m)) \<subseteq> set (Map_keys m)"
  by (auto simp: cleanup_def fold_Map_delete_keys Map_keys_def)

text \<open>
  Claim C3, as amended. For an entry of the store whose \<open>expiresAt\<close> is a date with
  \<open>now > expiresAt\<close>, strictly, \<^verbatim>\<open>get\<close> on its key returns nothing and removes it; the
  key is not among the \<^verbatim>\<open>keys()\<close> read afterwards, and the \<^verbatim>\<open>size()\<close> read
  afterwards, at any time \<open>t\<close>, counts the other entries not expired at \<open>t\<close>.
  \<^verbatim>\<open>cleanup\<close> removes exactly the entries whose \<open>expiresAt\<close> is a date before \<open>now\<close>,
  and keeps the others in their order.
\<close>

theorem expired_entry_is_absent:
  assumes "isMap cache" and "(k, item) \<in> set cache"
    and "expiresAt item = Time x" and "now > x"
  shows "cache_get now k cache = (None, Map_delete k cache)
     \<and> k \<notin> set (Map_keys (snd (cache_get now k cache)))
     \<and> k \<notin> set (fst (cache_keys t (snd (cache_get now k cache))))
     \<and> fst (cache_size t (snd (cache_get now k cache)))
         = length (filter (\<lambda>e. fst e \<noteq> k \<and> \<not> (\<exists>y. expiresAt (snd e) = Time y \<and> t > y)) cache)
     \<and> cleanup now cache
         = filter (\<lambda>e. \<not> (\<exists>y. expiresAt (snd e) = Time y \<and> now > y)) cache
     \<and> (k, item) \<notin> set (cleanup now cache)"
proof -
  have found: "Map_get k cache = Some item"
    using Map_get_Some_isMap [OF assms(1,2)] by simp
  have got: "cache_get now k cache = (None, Map_delete k cache)"
    using found assms(3,4) by (simp add: cache_get_def isExpired_def nowAfter_def)
  have gone: "k \<notin> set (Map_keys (Map_delete k cache))"
    by (rule Map_keys_Map_delete)
  have listed: "k \<notin> set (fst (cache_keys t (Map_delete k cache)))"
    using gone Map_keys_cleanup [of t "Map_delete k cache"]
    by (auto simp: cache_keys_def Let_def)
  have "isMap (Map_delete k cache)"
    unfolding Map_delete_def using assms(1) by (rule isMap_filter)
  then have counted: "fst (cache_size t (Map_delete k cache))
      = length (filter (\<lambda>e. fst e \<noteq> k \<and> \<not> (\<exists>y. expiresAt (snd e) = Time y \<and> t > y)) cache)"
    by (simp add: cache_size_def Let_def cleanup_filter Map_delete_def conj_commute
        nowAfter_iff)
  have swept: "cleanup now cache
      = filter (\<lambda>e. \<not> (\<exists>y. expiresAt (snd e) = Time y \<and> now > y)) cache"
    using assms(1) by (simp add: cleanup_filter nowAfter_iff)
  have "(k, item) \<notin> set (cleanup now cache)"
    using assms(3,4) by (simp add: swept)
  then show ?thesis
    using got gone listed counted swept by simp
qed

text \<open>The theorem at a store of two entries, one of them expired a millisecond ago.\<close>

theorem expired_entry_is_absent_witness:
  "cache_get 1001 ''k''
     [(''j'', \<lparr>key = ''j'', data = 5::int, timestamp = 0, expiresAt = Time 2000, accessCount = 0,
               lastAccessed = 0\<rparr>),
      (''k'', \<lparr>key = ''k'', data = 7, timestamp = 0, expiresAt = Time 1000, accessCount = 0,
               lastAccessed = 0\<rparr>)]
   = (None,
      [(''j'', \<lparr>key = ''j'', data = 5, timestamp = 0, expiresAt = Time 2000, accessCount = 0,
                lastAccessed = 0\<rparr>)])
   \<and> fst (cache_size 1500 (snd (cache_get 1001 ''k''
     [(''j'', \<lparr>key = ''j'', data = 5::int, timestamp = 0, expiresAt = Time 2000, accessCount = 0,
               lastAccessed = 0\<rparr>),
      (''k'', \<lparr>key = ''k'', data = 7, timestamp = 0, expiresAt = Time 1000, accessCount = 0,
               lastAccessed = 0\<rparr>)]))) = 1
   \<and> cleanup 1001
     [(''j'', \<lparr>key = ''j'', data = 5::int, timestamp = 0, expiresAt = Time 2000, accessCount = 0,
               lastAccessed = 0\<rparr>),
      (''k'', \<lparr>key = ''k'', data = 7, timestamp = 0, expiresAt = Time 1000, accessCount = 0,
               lastAccessed = 0\<rparr>)]
   = [(''j'', \<lparr>key = ''j'', data = 5, timestamp = 0, expiresAt = Time 2000, accessCount = 0,
                lastAccessed = 0\<rparr>)]"
proof -
  let ?cache = "[(''j'', \<lparr>key = ''j'', data = 5::int, timestamp = 0, expiresAt = Time 2000,
               accessCount = 0, lastAccessed = 0\<rparr>),
      (''k'', \<lparr>key = ''k'', data = 7, timestamp = 0, expiresAt = Time 1000, accessCount = 0,
               lastAccessed = 0\<rparr>)]"
  let ?item = "\<lparr>key = ''k'', data = 7::int, timestamp = 0, expiresAt = Time 1000,
               accessCount = 0, lastAccessed = 0\<rparr>"
  have map: "isMap ?cache" by (simp add: isMap_def Map_keys_def)
  have mem: "(''k'', ?item) \<in> set ?cache" by simp
  have date: "expiresAt ?item = Time 1000" by simp
  have late: "(1001::int) > 1000" by simp
  note inst = expired_entry_is_absent [OF map mem date late, where t = 1500]
  have got: "cache_get 1001 ''k'' ?cache
      = (None, [(''j'', \<lparr>key = ''j'', data = 5, timestamp = 0, expiresAt = Time 2000,
                         accessCount = 0, lastAccessed = 0\<rparr>)])"
    using inst [THEN conjunct1] by (simp add: Map_delete_def)
  have counted: "fst (cache_size 1500 (snd (cache_get 1001 ''k'' ?cache))) = 1"
    using inst [THEN conjunct2, THEN conjunct2, THEN conjunct2, THEN conjunct1] by simp
  have swept: "cleanup 1001 ?cache
      = [(''j'', \<lparr>key = ''j'', data = 5, timestamp = 0, expiresAt = Time 2000,
                  accessCount = 0, lastAccessed = 0\<rparr>)]"
    using inst [THEN conjunct2, THEN conjunct2, THEN conjunct2, THEN conjunct2, THEN conjunct1]
    by simp
  show ?thesis
    using got counted swept by (intro conjI)
qed

text \<open>
  Claim C3 as stated fails at \<open>now = expiresAt\<close>: \<^verbatim>\<open>get\<close> returns the value and
  \<^verbatim>\<open>cleanup\<close> keeps the entry.
\<close>

theorem entry_at_its_expiry_time_is_returned:
  "fst (cache_get 1000 ''k''
     [(''k'', \<lparr>key = ''k'', data = 7::int, timestamp = 0, expiresAt = Time 1000, accessCount = 0,
               lastAccessed = 0\<rparr>)])
   = Some 7
   \<and> cleanup 1000
     [(''k'', \<lparr>key = ''k'', data = 7::int, timestamp = 0, expiresAt = Time 1000, accessCount = 0,
               lastAccessed = 0\<rparr>)]
   = [(''k'', \<lparr>key = ''k'', data = 7::int, timestamp = 0, expiresAt = Time 1000, accessCount = 0,
               lastAccessed = 0\<rparr>)]"
  by (simp add: cache_get_def cleanup_def isExpired_def nowAfter_def Map_get_def)

subsection \<open>Eviction\<close>

lemma hd_insort_key:
  "hd (insort_key f x ys) = (if ys = [] \<or> f x \<le> f (hd ys) then x else hd ys)"
  by (cases ys) simp_all

lemma sort_key_Nil_iff: "sort_key f xs = [] \<longleftrightarrow> xs = []"
  by (metis length_0_conv length_sort)

lemma hd_sort_key_first_least:
  "xs \<noteq> [] \<Longrightarrow>
     \<exists>as e bs. xs = as @ e # bs \<and> hd (sort_key f xs) = e
       \<and> (\<forall>a \<in> set as. f e < f a) \<and> (\<forall>b \<in> set bs. f e \<le> f b)"
proof (induction xs)
  case Nil
  then show ?case by simp
next
  case (Cons x xs)
  show ?case
  proof (cases "xs = []")
    case True
    then have "x # xs = [] @ x # [] \<and> hd (sort_key f (x # xs)) = x" by simp
    then show ?thesis using True by fastforce
  next
    case False
    from Cons.IH [OF False] obtain as e bs where
      split: "xs = as @ e # bs" and least: "hd (sort_key f xs) = e"
      and before: "\<forall>a \<in> set as. f e < f a" and after: "\<forall>b \<in> set bs. f e \<le> f b"
      by blast
    have sorted_nonempty: "sort_key f xs \<noteq> []"
      using False by (simp add: sort_key_Nil_iff)
    show ?thesis
    proof (cases "f x \<le> f e")
      case True
      have "hd (sort_key f (x # xs)) = x"
        using True least sorted_nonempty by (simp add: hd_insort_key)
      moreover have "\<forall>b \<in> set xs. f x \<le> f b"
        using True split before after by fastforce
      ultimately have "x # xs = [] @ x # xs \<and> hd (sort_key f (x # xs)) = x
          \<and> (\<forall>a \<in> set []. f x < f a) \<and> (\<forall>b \<in> set xs. f x \<le> f b)"
        by simp
      then show ?thesis by blast
    next
      case False
      have "hd (sort_key f (x # xs)) = e"
        using False least sorted_nonempty by (simp add: hd_insort_key)
      moreover have "\<forall>a \<in> set (x # as). f e < f a"
        using False before by simp
      ultimately have "x # xs = (x # as) @ e # bs \<and> hd (sort_key f (x # xs)) = e
          \<and> (\<forall>a \<in> set (x # as). f e < f a) \<and> (\<forall>b \<in> set bs. f e \<le> f b)"
        using split after by simp
      then show ?thesis by blast
    qed
  qed
qed

lemma enforceMaxSize_one_over:
  assumes map: "isMap cache" and over: "length cache = Suc (maxSize config)"
  shows "\<exists>as e bs. cache = as @ e # bs
           \<and> (\<forall>a \<in> set as. lastAccessed (snd e) < lastAccessed (snd a))
           \<and> (\<forall>b \<in> set bs. lastAccessed (snd e) \<le> lastAccessed (snd b))
           \<and> enforceMaxSize config cache = as @ bs"
proof -
  let ?f = "\<lambda>e::string \<times> 'a CacheItem. lastAccessed (snd e)"
  have nonempty: "cache \<noteq> []" using over by auto
  from hd_sort_key_first_least [OF nonempty, of ?f] obtain as e bs where
    split: "cache = as @ e # bs" and least: "hd (sort_key ?f cache) = e"
    and before: "\<forall>a \<in> set as. ?f e < ?f a" and after: "\<forall>b \<in> set bs. ?f e \<le> ?f b"
    by blast
  have "sort_key ?f cache \<noteq> []"
    using nonempty by (simp add: sort_key_Nil_iff)
  then have "take (Suc 0) (sort_key ?f cache) = [e]"
    using least by (cases "sort_key ?f cache") simp_all
  then have "enforceMaxSize config cache = filter (\<lambda>x. fst x \<noteq> fst e) cache"
    using over by (simp add: enforceMaxSize_filter)
  also have "\<dots> = as @ bs"
  proof -
    have "distinct (map fst as @ fst e # map fst bs)"
      using map split by (simp add: isMap_def Map_keys_def)
    then have "fst e \<notin> fst ` set as" and "fst e \<notin> fst ` set bs"
      by auto
    then have "\<forall>x \<in> set as. fst x \<noteq> fst e" and "\<forall>x \<in> set bs. fst x \<noteq> fst e"
      by (metis imageI)+
    then show ?thesis by (simp add: split)
  qed
  finally show ?thesis using split before after by blast
qed

lemma lru_scenario:
  assumes "maxSize config = 2 \<and> t1 \<le> t2 \<and> t2 < t3 \<and> t3 \<le> t4 \<and> t3 \<le> t1 + defaultTtl config"
  shows "Map_keys (cacheRun config
          [(t1, Set ''a'' va None), (t2, Set ''b'' vb None), (t3, Get ''a''),
           (t4, Set ''c'' vc None)] [])
        = [''a'', ''c'']"
  using assms
  by (simp add: cacheRun_def cache_set_def cache_get_def enforceMaxSize_def isExpired_def newDate_def nowAfter_def
        Map_get_def Map_delete_def Map_keys_def Let_def)

text \<open>
  Claim C5, as amended. When \<^verbatim>\<open>set\<close> adds a new key to a store that holds exactly
  \<open>maxSize\<close> entries, exactly one entry leaves: among the entries and the new one, in the
  order of the \<^verbatim>\<open>Map\<close>, the first one whose \<open>lastAccessed\<close> is least (entries before it
  were accessed strictly later, entries after it no earlier). \<open>timestamp\<close> plays no part.
  In particular, with \<open>maxSize = 2\<close> and clock values \<open>t1 \<le> t2 < t3 \<le> t4\<close>, where
  \<open>"a"\<close> has not expired at \<open>t3\<close>: after \<^verbatim>\<open>set("a")\<close>, \<^verbatim>\<open>set("b")\<close>, \<^verbatim>\<open>get("a")\<close>,
  \<^verbatim>\<open>set("c")\<close> the store holds \<open>"a"\<close> and \<open>"c"\<close>.
\<close>

theorem cache_set_evicts_first_least_recently_accessed:
  "(isMap cache \<and> k \<notin> set (Map_keys cache) \<and> length cache = maxSize config \<longrightarrow>
      (\<exists>item as e bs.
          cache @ [(k, item)] = as @ e # bs
        \<and> data item = d \<and> timestamp item = now \<and> lastAccessed item = now
        \<and> (\<forall>a \<in> set as. lastAccessed (snd e) < lastAccessed (snd a))
        \<and> (\<forall>b \<in> set bs. lastAccessed (snd e) \<le> lastAccessed (snd b))
        \<and> cache_set config now k d ttl cache = as @ bs))
   \<and> (maxSize config = 2 \<and> t1 \<le> t2 \<and> t2 < t3 \<and> t3 \<le> t4 \<and> t3 \<le> t1 + defaultTtl config \<longrightarrow>
        Map_keys (cacheRun config
          [(t1, Set ''a'' va None), (t2, Set ''b'' vb None), (t3, Get ''a''),
           (t4, Set ''c'' vc None)] [])
        = [''a'', ''c''])"
proof (intro conjI impI)
  assume hyps: "isMap cache \<and> k \<notin> set (Map_keys cache) \<and> length cache = maxSize config"
  define item where "item =
    \<lparr>key = k, data = d, timestamp = now,
     expiresAt = newDate (now + (case ttl of None \<Rightarrow> defaultTtl config
                                 | Some t \<Rightarrow> if t = 0 then defaultTtl config else t)),
     accessCount = 0, lastAccessed = now\<rparr>"
  have appended: "Map_set k item cache = cache @ [(k, item)]"
    using hyps by (simp add: Map_set_new)
  have "isMap (cache @ [(k, item)])"
    using hyps isMap_Map_set [of cache k item] by (simp add: appended)
  moreover have "length (cache @ [(k, item)]) = Suc (maxSize config)"
    using hyps by simp
  ultimately obtain as e bs where
    split: "cache @ [(k, item)] = as @ e # bs"
    and before: "\<forall>a \<in> set as. lastAccessed (snd e) < lastAccessed (snd a)"
    and after: "\<forall>b \<in> set bs. lastAccessed (snd e) \<le> lastAccessed (snd b)"
    and left: "enforceMaxSize config (cache @ [(k, item)]) = as @ bs"
    using enforceMaxSize_one_over [of "cache @ [(k, item)]" config] by blast
  have "cache_set config now k d ttl cache = as @ bs"
    using left appended by (simp add: cache_set_def Let_def item_def)
  moreover have "data item = d \<and> timestamp item = now \<and> lastAccessed item = now"
    by (simp add: item_def)
  ultimately show "\<exists>item as e bs.
          cache @ [(k, item)] = as @ e # bs
        \<and> data item = d \<and> timestamp item = now \<and> lastAccessed item = now
        \<and> (\<forall>a \<in> set as. lastAccessed (snd e) < lastAccessed (snd a))
        \<and> (\<forall>b \<in> set bs. lastAccessed (snd e) \<le> lastAccessed (snd b))
        \<and> cache_set config now k d ttl cache = as @ bs"
    using split before after by blast
next
  assume "maxSize config = 2 \<and> t1 \<le> t2 \<and> t2 < t3 \<and> t3 \<le> t4 \<and> t3 \<le> t1 + defaultTtl config"
  then show "Map_keys (cacheRun config
          [(t1, Set ''a'' va None), (t2, Set ''b'' vb None), (t3, Get ''a''),
           (t4, Set ''c'' vc None)] [])
        = [''a'', ''c'']"
    by (rule lru_scenario)
qed

text \<open>
  The theorem at a full store of two entries, and at the clock values 0, 1, 2, 3 of the
  scenario.
\<close>

theorem cache_set_evicts_first_least_recently_accessed_witness:
  "(\<exists>item as e bs.
      [(''a'', \<lparr>key = ''a'', data = 1::int, timestamp = 0, expiresAt = Time 300000, accessCount = 1,
                lastAccessed = 2\<rparr>),
       (''b'', \<lparr>key = ''b'', data = 2, timestamp = 1, expiresAt = Time 300001, accessCount = 0,
                lastAccessed = 1\<rparr>)] @ [(''c'', item)] = as @ e # bs
      \<and> data item = 3 \<and> timestamp item = 3 \<and> lastAccessed item = 3
      \<and> (\<forall>a \<in> set as. lastAccessed (snd e) < lastAccessed (snd a))
      \<and> (\<forall>b \<in> set bs. lastAccessed (snd e) \<le> lastAccessed (snd b))
      \<and> cache_set \<lparr>defaultTtl = 300000, maxSize = 2, cleanupInterval = 60000,
                     enablePersistence = True\<rparr>
           3 ''c'' 3 None
           [(''a'', \<lparr>key = ''a'', data = 1::int, timestamp = 0, expiresAt = Time 300000,
                     accessCount = 1, lastAccessed = 2\<rparr>),
            (''b'', \<lparr>key = ''b'', data = 2, timestamp = 1, expiresAt = Time 300001,
                     accessCount = 0, lastAccessed = 1\<rparr>)] = as @ bs)
   \<and> Map_keys (cacheRun \<lparr>defaultTtl = 300000, maxSize = 2, cleanupInterval = 60000,
                          enablePersistence = True\<rparr>
        [(0, Set ''a'' (1::int) None), (1, Set ''b'' (2::int) None), (2, Get ''a''),
         (3, Set ''c'' (3::int) None)] [])
     = [''a'', ''c'']"
proof -
  let ?config = "\<lparr>defaultTtl = 300000, maxSize = 2, cleanupInterval = 60000,
                   enablePersistence = True\<rparr>"
  let ?cache = "[(''a'', \<lparr>key = ''a'', data = 1::int, timestamp = 0, expiresAt = Time 300000,
                     accessCount = 1, lastAccessed = 2\<rparr>),
            (''b'', \<lparr>key = ''b'', data = 2, timestamp = 1, expiresAt = Time 300001,
                     accessCount = 0, lastAccessed = 1\<rparr>)]"
  note inst = cache_set_evicts_first_least_recently_accessed
      [where cache = ?cache and k = "''c''" and config = ?config and d = "3::int"
         and now = 3 and ttl = None and ?t1.0 = 0 and ?t2.0 = 1 and ?t3.0 = 2 and ?t4.0 = 3
         and va = "1::int" and vb = "2::int" and vc = "3::int"]
  have full: "isMap ?cache \<and> ''c'' \<notin> set (Map_keys ?cache) \<and> length ?cache = maxSize ?config"
    by (simp add: isMap_def Map_keys_def)
  have times: "maxSize ?config = 2 \<and> (0::int) \<le> 1 \<and> (1::int) < 2 \<and> (2::int) \<le> 3
      \<and> (2::int) \<le> 0 + defaultTtl ?config"
    by simp
  show ?thesis
    by (rule conjI [OF mp [OF conjunct1 [OF inst] full] mp [OF conjunct2 [OF inst] times]])
qed

text \<open>
  Claim C5 as stated fails. After \<^verbatim>\<open>set("b")\<close> at 0, \<^verbatim>\<open>set("a")\<close> at 1,
  \<^verbatim>\<open>set("b")\<close> at 2 and \<^verbatim>\<open>get("a")\<close> at 2, both entries were last accessed at 2 and
  \<open>"a"\<close> is the one created first, so the wording of the specification evicts \<open>"a"\<close>;
  \<^verbatim>\<open>set("c")\<close> evicts \<open>"b"\<close>. And the scenario of the claim, run at one clock value,
  evicts \<open>"a"\<close>, not \<open>"b"\<close>.
\<close>

theorem eviction_ignores_createdAt:
  "cacheRun \<lparr>defaultTtl = 300000, maxSize = 2, cleanupInterval = 60000,
             enablePersistence = True\<rparr>
     [(0, Set ''b'' (20::int) None), (1, Set ''a'' 10 None), (2, Set ''b'' 21 None),
      (2, Get ''a'')] []
   = [(''b'', \<lparr>key = ''b'', data = 21, timestamp = 2, expiresAt = Time 300002, accessCount = 0,
               lastAccessed = 2\<rparr>),
      (''a'', \<lparr>key = ''a'', data = 10, timestamp = 1, expiresAt = Time 300001, accessCount = 1,
               lastAccessed = 2\<rparr>)]
   \<and> map_option fst (lru_spec
     [(''b'', \<lparr>key = ''b'', data = 21::int, timestamp = 2, expiresAt = Time 300002, accessCount = 0,
               lastAccessed = 2\<rparr>),
      (''a'', \<lparr>key = ''a'', data = 10, timestamp = 1, expiresAt = Time 300001, accessCount = 1,
               lastAccessed = 2\<rparr>)])
     = Some ''a''
   \<and> Map_keys (cache_set \<lparr>defaultTtl = 300000, maxSize = 2, cleanupInterval = 60000,
                           enablePersistence = True\<rparr>
        3 ''c'' 30 None
     [(''b'', \<lparr>key = ''b'', data = 21::int, timestamp = 2, expiresAt = Time 300002, accessCount = 0,
               lastAccessed = 2\<rparr>),
      (''a'', \<lparr>key = ''a'', data = 10, timestamp = 1, expiresAt = Time 300001, accessCount = 1,
               lastAccessed = 2\<rparr>)])
     = [''a'', ''c'']
   \<and> Map_keys (cacheRun \<lparr>defaultTtl = 300000, maxSize = 2, cleanupInterval = 60000,
                          enablePersistence = True\<rparr>
        [(0, Set ''a'' (1::int) None), (0, Set ''b'' 2 None), (0, Get ''a''),
         (0, Set ''c'' 3 None)] [])
     = [''b'', ''c'']"
  by (simp add: cacheRun_def cache_set_def cache_get_def enforceMaxSize_def isExpired_def newDate_def nowAfter_def
      Map_get_def Map_delete_def Map_keys_def Let_def olderThan_spec_def)

subsection \<open>Reading back what was just stored\<close>

lemma last_entry_unique:
  assumes "distinct (map fst (xs @ [x]))" and "xs @ [x] = as @ x # bs"
  shows "bs = [] \<and> as = xs"
proof (cases bs rule: rev_cases)
  case Nil
  then show ?thesis using assms(2) by simp
next
  case (snoc bs' b)
  then have "xs @ [x] = (as @ x # bs') @ [b]" using assms(2) by simp
  then have "b = x" and "xs = as @ x # bs'" by simp_all
  then have "\<not> distinct (map fst (xs @ [x]))" by simp
  then show ?thesis using assms(1) by simp
qed

text \<open>
  Claim C6, as amended. On a store within its bound, with \<open>maxSize \<ge> 1\<close>, none of whose
  entries was accessed later than \<open>now\<close>, and with a time to live that is not negative
  (\<open>ttl\<close> missing or zero selects \<open>defaultTtl\<close>, itself not negative):
  \<^verbatim>\<open>set(k, v, ttl)\<close> followed by \<^verbatim>\<open>get(k)\<close> at the same instant returns \<open>v\<close>.
\<close>

theorem set_then_get_returns_value:
  assumes map: "isMap cache"
    and bound: "length cache \<le> maxSize config"
    and room: "1 \<le> maxSize config"
    and past: "\<forall>e \<in> set cache. lastAccessed (snd e) \<le> now"
    and dflt: "0 \<le> defaultTtl config"
    and nonneg: "\<forall>t. ttl = Some t \<longrightarrow> 0 \<le> t"
  shows "fst (cache_get now k (cache_set config now k v ttl cache)) = Some v"
proof -
  define lifetime where "lifetime =
    (case ttl of None \<Rightarrow> defaultTtl config | Some t \<Rightarrow> if t = 0 then defaultTtl config else t)"
  define item where "item =
    \<lparr>key = k, data = v, timestamp = now, expiresAt = newDate (now + lifetime),
     accessCount = 0, lastAccessed = now\<rparr>"
  have lifetime: "0 \<le> lifetime"
    using dflt nonneg by (auto simp: lifetime_def split: option.splits)
  have set_eq: "cache_set config now k v ttl cache = enforceMaxSize config (Map_set k item cache)"
    by (simp add: cache_set_def Let_def item_def lifetime_def)
  have kept: "Map_get k (enforceMaxSize config (Map_set k item cache)) = Some item"
  proof (cases "length (Map_set k item cache) \<le> maxSize config")
    case True
    then show ?thesis by (simp add: enforceMaxSize_within Map_get_Map_set)
  next
    case False
    then have new: "k \<notin> set (Map_keys cache)" and full: "length cache = maxSize config"
      using bound by (auto simp: length_Map_set split: if_splits)
    have appended: "Map_set k item cache = cache @ [(k, item)]"
      using new by (rule Map_set_new)
    have map': "isMap (cache @ [(k, item)])"
      using isMap_Map_set [OF map, of k item] by (simp add: appended)
    have "length (cache @ [(k, item)]) = Suc (maxSize config)"
      using full by simp
    with map' obtain as e bs where
      split: "cache @ [(k, item)] = as @ e # bs"
      and before: "\<forall>a \<in> set as. lastAccessed (snd e) < lastAccessed (snd a)"
      and left: "enforceMaxSize config (cache @ [(k, item)]) = as @ bs"
      using enforceMaxSize_one_over [of "cache @ [(k, item)]" config] by blast
    have "e \<noteq> (k, item)"
    proof
      assume e: "e = (k, item)"
      have ends: "bs = [] \<and> as = cache"
        using map' split e by (intro last_entry_unique) (simp_all add: isMap_def Map_keys_def)
      have "cache \<noteq> []" using full room by auto
      then obtain a where a: "a \<in> set cache" by (cases cache) auto
      then have "lastAccessed (snd e) < lastAccessed (snd a)"
        using before ends by simp
      moreover have "lastAccessed (snd a) \<le> now"
        using past a by simp
      ultimately show False using e by (simp add: item_def)
    qed
    moreover have "(k, item) \<in> set (cache @ [(k, item)])" by simp
    then have "(k, item) \<in> set (as @ e # bs)"
      by (simp only: split)
    ultimately have mem: "(k, item) \<in> set (as @ bs)" by simp
    have "isMap (as @ bs)"
      using map' split by (simp add: isMap_def Map_keys_def)
    then have "Map_get k (as @ bs) = Some item"
      using Map_get_Some_isMap [of "as @ bs" "(k, item)"] mem by simp
    then show ?thesis using left appended by simp
  qed
  have "\<not> isExpired now item"
    using lifetime by (simp add: isExpired_def newDate_def nowAfter_def item_def)
  then show ?thesis
    using kept by (simp add: set_eq cache_get_def item_def)
qed

text \<open>
  Claim C6 as stated fails for a negative \<open>ttl\<close>: the entry is expired when it is
  stored, and the \<^verbatim>\<open>get\<close> of the same instant returns nothing.
\<close>

theorem negative_ttl_is_not_returned:
  "fst (cache_get 0 ''k''
     (cache_set \<lparr>defaultTtl = 300000, maxSize = 100, cleanupInterval = 60000,
                 enablePersistence = True\<rparr>
        0 ''k'' (42::int) (Some (- 5)) []))
   = None"
  by (simp add: cache_set_def cache_get_def enforceMaxSize_def isExpired_def newDate_def nowAfter_def Map_get_def Let_def)

text \<open>
  The theorem at a full store of one entry, with \<open>ttl = 0\<close>: the older entry is evicted,
  the new value is returned.
\<close>

theorem set_then_get_returns_value_witness:
  "fst (cache_get 3 ''b''
     (cache_set \<lparr>defaultTtl = 300000, maxSize = 1, cleanupInterval = 60000,
                 enablePersistence = True\<rparr>
        3 ''b'' (9::int) (Some 0)
        [(''a'', \<lparr>key = ''a'', data = 1, timestamp = 0, expiresAt = Time 300000, accessCount = 1,
                  lastAccessed = 2\<rparr>)]))
   = Some 9"
proof -
  let ?config = "\<lparr>defaultTtl = 300000, maxSize = 1, cleanupInterval = 60000,
                   enablePersistence = True\<rparr>"
  let ?cache = "[(''a'', \<lparr>key = ''a'', data = 1::int, timestamp = 0, expiresAt = Time 300000,
                          accessCount = 1, lastAccessed = 2\<rparr>)]"
  have map: "isMap ?cache" by (simp add: isMap_def Map_keys_def)
  have bound: "length ?cache \<le> maxSize ?config" by simp
  have room: "1 \<le> maxSize ?config" by simp
  have past: "\<forall>e \<in> set ?cache. lastAccessed (snd e) \<le> 3" by simp
  have dflt: "0 \<le> defaultTtl ?config" by simp
  have nonneg: "\<forall>t. Some (0::int) = Some t \<longrightarrow> 0 \<le> t" by simp
  show ?thesis
    by (rule set_then_get_returns_value [OF map bound room past dflt nonneg])
qed

end
